theory Spec2Isabelle
  imports Complex_Main "HOL-Library.Sublist" "HOL-Library.Word"
begin

section \<open>Text normalizer: \<open>cleanText\<close>\<close>

text \<open>
  A text is a list of code units, written as a \<^typ>\<open>string\<close>. The OCR worker is
  configured with the whitelist \<^verbatim>\<open>0-9 . , A-Z a-z / - space\<close>, so every unit of the
  texts handed to \<open>cleanText\<close> is below 256.
\<close>

subsection \<open>Character classes of the regular expressions\<close>

definition is_digit :: "char \<Rightarrow> bool" where
  \<comment> \<open>\<^verbatim>\<open>\d\<close>\<close>
  "is_digit c = (c \<in> set ''0123456789'')"

definition is_alpha :: "char \<Rightarrow> bool" where
  \<comment> \<open>\<^verbatim>\<open>[A-Za-z]\<close>\<close>
  "is_alpha c = (c \<in> set ''ABCDEFGHIJKLMNOPQRSTUVWXYZabcdefghijklmnopqrstuvwxyz'')"

definition is_space :: "char \<Rightarrow> bool" where
  \<comment> \<open>\<^verbatim>\<open>\s\<close> on units below 256: TAB, LF, VT, FF, CR, space, no-break space\<close>
  "is_space c = (c \<in> set [CHR 0x09, CHR 0x0A, CHR 0x0B, CHR 0x0C, CHR 0x0D, CHR 0x20, CHR 0xA0])"

datatype char_class = Digit | Space | Alpha | OneOf string

fun in_class :: "char_class \<Rightarrow> char \<Rightarrow> bool" where
  "in_class Digit c = is_digit c"
| "in_class Space c = is_space c"
| "in_class Alpha c = is_alpha c"
| "in_class (OneOf cs) c = (c \<in> set cs)"

subsection \<open>A backtracking matcher for sequences of quantified classes\<close>

text \<open>
  Every regular expression of \<open>cleanText\<close> is a sequence of character classes, each
  with a greedy quantifier \<^verbatim>\<open>{lo,hi}\<close> (\<open>hi = None\<close> for \<^verbatim>\<open>+\<close> and \<^verbatim>\<open>*\<close>), some of them
  wrapped in a capture group. \<open>Atom cl lo hi grp\<close> is one such element.
\<close>

datatype atom = Atom (cls: char_class) (lo: nat) (hi: "nat option") (grp: bool)

definition greedy :: "atom \<Rightarrow> string \<Rightarrow> nat" where
  \<comment> \<open>the largest number of units the quantifier can take at the head of the text\<close>
  "greedy a s =
     (let n = length (takeWhile (in_class (cls a)) s)
      in case hi a of None \<Rightarrow> n | Some h \<Rightarrow> min h n)"

text \<open>
  \<open>match_seq ps s\<close> matches the pattern at the head of \<open>s\<close> the way a backtracking
  engine does: a quantifier first takes as many units as it can and gives them back one
  by one while the rest of the pattern fails. The result is the list of captured groups
  and the text after the match.
\<close>

function match_seq :: "atom list \<Rightarrow> string \<Rightarrow> (string list \<times> string) option"
  and match_rep :: "atom \<Rightarrow> atom list \<Rightarrow> string \<Rightarrow> nat \<Rightarrow> (string list \<times> string) option"
where
  "match_seq [] s = Some ([], s)"
| "match_seq (a # ps) s = match_rep a ps s (greedy a s)"
| "match_rep a ps s k =
     (if k < lo a then None
      else case match_seq ps (drop k s) of
             Some (gs, rest) \<Rightarrow> Some ((if grp a then [take k s] else []) @ gs, rest)
           | None \<Rightarrow> (case k of 0 \<Rightarrow> None | Suc k' \<Rightarrow> match_rep a ps s k'))"
  by pat_completeness auto
termination
  by (relation "measures
        [\<lambda>x. case x of Inl (ps, s) \<Rightarrow> 2 * length ps | Inr (a, ps, s, k) \<Rightarrow> 2 * length ps + 1,
         \<lambda>x. case x of Inl (ps, s) \<Rightarrow> 0 | Inr (a, ps, s, k) \<Rightarrow> k]") auto

declare match_rep.simps [simp del]

subsection \<open>Replacement templates and global replace\<close>

datatype tpart = G nat | T string

fun subst :: "tpart list \<Rightarrow> string list \<Rightarrow> string" where
  \<comment> \<open>\<^verbatim>\<open>$n\<close> beyond the last group stays in the output as it is written\<close>
  "subst [] gs = []"
| "subst (T s # ts) gs = s @ subst ts gs"
| "subst (G n # ts) gs =
     (if 1 \<le> n \<and> n \<le> length gs then gs ! (n - 1)
      else CHR ''$'' # [''0123456789'' ! (n mod 10)]) @ subst ts gs"

text \<open>
  \<^verbatim>\<open>text.replace(re, template)\<close> with the \<^verbatim>\<open>g\<close> flag: the text is scanned from left to
  right; where the pattern matches, the match is replaced and the scan goes on after
  it; elsewhere one unit is copied. After an empty match the scan moves one unit on.
\<close>

function replace_g :: "atom list \<Rightarrow> tpart list \<Rightarrow> string \<Rightarrow> string" where
  "replace_g ps t s =
     (case match_seq ps s of
        Some (gs, rest) \<Rightarrow>
          if length rest < length s then subst t gs @ replace_g ps t rest
          else subst t gs @ (case s of [] \<Rightarrow> [] | c # cs \<Rightarrow> c # replace_g ps t cs)
      | None \<Rightarrow> (case s of [] \<Rightarrow> [] | c # cs \<Rightarrow> c # replace_g ps t cs))"
  by pat_completeness auto
termination
  by (relation "measure (\<lambda>(ps, t, s). length s)") auto

declare replace_g.simps [simp del]

subsection \<open>The substitution table\<close>

text \<open>
  The table is an object literal; \<^verbatim>\<open>Object.entries\<close> lists its entries in the order they
  are written (no key is an array index, no key occurs twice).
\<close>

definition replacements :: "(string \<times> string) list" where
  "replacements =
    [(''o'', ''0''), (''O'', ''0''),
     (''l'', ''1''), (''L'', ''1''),
     (''s'', ''5''), (''S'', ''5''),
     (''g'', ''6''), (''G'', ''6''),
     (''t'', ''7''), (''T'', ''7''),
     (''b'', ''8''), (''B'', ''8''),
     (''q'', ''9''), (''Q'', ''9''),
     (''z'', ''2''), (''Z'', ''2''),
     (''8ank'', ''Bank''),
     (''8u5ine55'', ''Business''),
     (''Acc0un7'', ''Account''),
     (''5a7emen7'', ''Statement''),
     (''R0ya1'', ''Royal''),
     (''M0N7REA1'', ''Montreal''),
     (''Ju1y'', ''July''),
     (''Au6u57'', ''August''),
     (''57W'', ''St W''),
     (''0N'', ''ON''),
     (''M5V'', ''MSV''),
     (''P1ea5e'', ''Please''),
     (''c0n7ac7'', ''contact''),
     (''8ankin6'', ''Banking''),
     (''repre5en7a7ive'', ''representative''),
     (''ca11'', ''call''),
     (''Acc0un75ummary'', ''Account Summary''),
     (''E55en7ia15'', ''Essentials''),
     (''Varia81e'', ''Variable''),
     (''Pricin6'', ''Pricing''),
     (''PER7H'', ''Perth''),
     (''0penin6'', ''Opening''),
     (''dep05i75'', ''deposits''),
     (''credi75'', ''credits''),
     (''che9ue5'', ''cheques''),
     (''de8i75'', ''debits''),
     (''C105in6'', ''Closing''),
     (''Ac7ivi7y'', ''Activity''),
     (''De7ai15'', ''Details''),
     (''De5crip7i0n'', ''Description''),
     (''Che9ue'', ''Cheque''),
     (''De8i7'', ''Debit''),
     (''Dep05i7'', ''Deposit''),
     (''Credi7'', ''Credit''),
     (''8a1ance'', ''Balance''),
     (''Mi5c'', ''Misc''),
     (''Paymen7'', ''Payment''),
     (''FEE5'', ''FEE''),
     (''In5urance'', ''Insurance''),
     (''5UN'', ''SUN''),
     (''1IFE'', ''LIFE''),
     (''RE6U1AR'', ''REGULAR''),
     (''C0MMERCIA1'', ''COMMERCIAL''),
     (''IN5'', ''INS''),
     (''FEDERA7ED'', ''FEDERATED''),
     (''IN5UR'', ''INSUR'')]"

text \<open>
  \<^verbatim>\<open>new RegExp(wrong, 'g')\<close> reads the key as a pattern and \<^verbatim>\<open>replace\<close> reads the value as
  a template. A key made of letters and digits only is the pattern that matches exactly
  that text, and a value without \<^verbatim>\<open>$\<close> is the template that writes exactly that text.
  The model covers these entries; on any other entry (where the constructor may also
  throw) it stops with \<open>Outside_model\<close>.
\<close>

datatype failure = Outside_model

definition plain_key :: "string \<Rightarrow> bool" where
  "plain_key w = (w \<noteq> [] \<and> list_all (\<lambda>c. is_alpha c \<or> is_digit c) w)"

definition plain_value :: "string \<Rightarrow> bool" where
  "plain_value c = list_all (\<lambda>x. x \<noteq> CHR ''$'') c"

definition literal :: "string \<Rightarrow> atom list" where
  "literal w = map (\<lambda>c. Atom (OneOf [c]) 1 (Some 1) False) w"

definition apply_entry :: "string \<times> string \<Rightarrow> string \<Rightarrow> failure + string" where
  "apply_entry e text =
     (case e of (wrong, correct) \<Rightarrow>
        if plain_key wrong \<and> plain_value correct
        then Inr (replace_g (literal wrong) [T correct] text)
        else Inl Outside_model)"

fun apply_entries :: "(string \<times> string) list \<Rightarrow> string \<Rightarrow> failure + string" where
  \<comment> \<open>the \<^verbatim>\<open>forEach\<close> over the entries, each working on the text the previous one left\<close>
  "apply_entries [] text = Inr text"
| "apply_entries (e # es) text =
     (case apply_entry e text of Inl f \<Rightarrow> Inl f | Inr text' \<Rightarrow> apply_entries es text')"

subsection \<open>The spacing, date and account-number passes\<close>

abbreviation one :: "char_class \<Rightarrow> atom" where
  "one cl \<equiv> Atom cl 1 (Some 1) True"

abbreviation spaces1 :: atom where
  \<comment> \<open>\<^verbatim>\<open>\s+\<close>\<close>
  "spaces1 \<equiv> Atom Space 1 None False"

abbreviation spaces0 :: atom where
  \<comment> \<open>\<^verbatim>\<open>\s*\<close>\<close>
  "spaces0 \<equiv> Atom Space 0 None False"

abbreviation digits :: "nat \<Rightarrow> atom" where
  \<comment> \<open>\<^verbatim>\<open>(\d{n})\<close>\<close>
  "digits n \<equiv> Atom Digit n (Some n) True"

abbreviation lit :: "char \<Rightarrow> atom" where
  "lit c \<equiv> Atom (OneOf [c]) 1 (Some 1) False"

definition fix_spacing :: "string \<Rightarrow> string" where
  "fix_spacing text =
     replace_g [one Digit, spaces1, one Alpha] [G 1, G 2]
      (replace_g [one Alpha, spaces1, one Digit] [G 1, G 2]
        (replace_g [one (OneOf ''.,''), spaces1, one Digit] [G 1, G 2]
          (replace_g [one Digit, spaces1, one Digit] [G 1, G 2] text)))"

definition fix_dates :: "string \<Rightarrow> string" where
  "fix_dates text =
     replace_g [Atom Alpha 1 None True, spaces1, Atom Digit 1 (Some 2) True,
                lit CHR '','', spaces1, digits 4]
               [G 1, T '' '', G 2, T '', '', G 3]
      (replace_g [Atom Digit 1 (Some 2) True, spaces1, Atom Alpha 1 None True,
                  lit CHR '','', spaces1, digits 4]
                 [G 1, T '' '', G 2, T '', '', G 3] text)"

definition fix_accounts :: "string \<Rightarrow> string" where
  "fix_accounts text =
     replace_g [digits 3, spaces0, lit CHR ''-'', spaces0, digits 4,
                spaces0, lit CHR ''-'', spaces0, digits 4]
               [G 1, T ''-'', G 2, T ''-'', G 3]
      (replace_g [digits 4, spaces0, lit CHR ''-'', spaces0, digits 3,
                  spaces0, lit CHR ''-'', spaces0, digits 3]
                 [G 1, T ''-'', G 2, T ''-'', G 3] text)"

definition cleanText :: "string \<Rightarrow> failure + string" where
  "cleanText text =
     (case apply_entries replacements text of
        Inl f \<Rightarrow> Inl f
      | Inr text1 \<Rightarrow> Inr (fix_accounts (fix_dates (fix_spacing text1))))"

text \<open>
  The texts the idempotence property is about: digit groups and their punctuation with
  no letter and no white space in them, such as \<^verbatim>\<open>1234-567-890\<close> or \<^verbatim>\<open>123-4567-8901\<close>.
\<close>

abbreviation quiet :: "char \<Rightarrow> bool" where
  "quiet c \<equiv> \<not> is_alpha c \<and> \<not> is_space c"

definition spaced_digit_text :: "string \<Rightarrow> bool" where
  "spaced_digit_text x = list_all quiet x"

section \<open>The normalizer as a run over UTF-16 code units\<close>

text \<open>
  A JavaScript string is a sequence of 16-bit code units, and a regular expression
  without the \<^verbatim>\<open>u\<close> flag reads it unit by unit. This section gives the same patterns
  and the same table an operational reading over any kind of unit: what the classes
  \<^verbatim>\<open>\d\<close>, \<^verbatim>\<open>[A-Za-z]\<close> and \<^verbatim>\<open>\s\<close> hold of a unit, and how a character written in the source
  is a unit, is an \<open>alphabet\<close>. A run is a derivation: nothing in the rules says that a
  run exists or that there is only one.
\<close>

record 'u alphabet =
  digit :: "'u \<Rightarrow> bool"
  letter :: "'u \<Rightarrow> bool"
  white :: "'u \<Rightarrow> bool"
  unit_of :: "char \<Rightarrow> 'u"

text \<open>
  The code units of JavaScript. \<^verbatim>\<open>\s\<close> is the white space and the line terminators of
  ECMAScript: TAB, LF, VT, FF, CR, space, U+00A0, U+1680, U+2000 to U+200A, U+2028,
  U+2029, U+202F, U+205F, U+3000 and U+FEFF.
\<close>

definition utf16 :: "16 word alphabet" where
  "utf16 =
     \<lparr>digit = (\<lambda>u. 0x30 \<le> u \<and> u \<le> 0x39),
      letter = (\<lambda>u. (0x41 \<le> u \<and> u \<le> 0x5A) \<or> (0x61 \<le> u \<and> u \<le> 0x7A)),
      white = (\<lambda>u. u \<in> set [0x09, 0x0A, 0x0B, 0x0C, 0x0D, 0x20, 0xA0, 0x1680, 0x2028, 0x2029,
                                0x202F, 0x205F, 0x3000, 0xFEFF]
                    \<or> (0x2000 \<le> u \<and> u \<le> 0x200A)),
      unit_of = (\<lambda>c. of_nat (of_char c))\<rparr>"

text \<open>The code units of a text written with the characters of the source.\<close>

definition units :: "string \<Rightarrow> 16 word list" where
  "units s = map (unit_of utf16) s"

text \<open>A result of the matcher on units below 256, read as code units.\<close>

fun lift_u16 :: "(string list \<times> string) option \<Rightarrow> (16 word list list \<times> 16 word list) option" where
  "lift_u16 None = None"
| "lift_u16 (Some (gs, rest)) = Some (map units gs, units rest)"

text \<open>The units below 256 on which \<open>cleanText\<close> above is written.\<close>

definition latin1 :: "char alphabet" where
  "latin1 = \<lparr>digit = is_digit, letter = is_alpha, white = is_space, unit_of = (\<lambda>c. c)\<rparr>"

fun holds :: "'u alphabet \<Rightarrow> char_class \<Rightarrow> 'u \<Rightarrow> bool" where
  "holds A Digit u = digit A u"
| "holds A Space u = white A u"
| "holds A Alpha u = letter A u"
| "holds A (OneOf cs) u = (u \<in> set (map (unit_of A) cs))"

definition longest :: "'u alphabet \<Rightarrow> atom \<Rightarrow> 'u list \<Rightarrow> nat" where
  "longest A a s =
     (let n = length (takeWhile (holds A (cls a)) s)
      in case hi a of None \<Rightarrow> n | Some h \<Rightarrow> min h n)"

fun fill :: "'u alphabet \<Rightarrow> tpart list \<Rightarrow> 'u list list \<Rightarrow> 'u list" where
  "fill A [] gs = []"
| "fill A (T s # ts) gs = map (unit_of A) s @ fill A ts gs"
| "fill A (G n # ts) gs =
     (if 1 \<le> n \<and> n \<le> length gs then gs ! (n - 1)
      else map (unit_of A) (CHR ''$'' # [''0123456789'' ! (n mod 10)])) @ fill A ts gs"

text \<open>
  The matcher at the head of a text. \<open>matches A ps s r\<close>: the attempt to match the
  pattern ends with \<open>r\<close>, the groups and the text after the match, or \<open>None\<close> when every
  alternative has failed. \<open>tries A a ps s k r\<close>: the attempt that gives the quantified
  class \<open>a\<close> the first \<open>k\<close> units, and fewer where the rest of the pattern fails, ends
  with \<open>r\<close>.
\<close>

inductive matches ::
    "'u alphabet \<Rightarrow> atom list \<Rightarrow> 'u list \<Rightarrow> ('u list list \<times> 'u list) option \<Rightarrow> bool"
  and tries ::
    "'u alphabet \<Rightarrow> atom \<Rightarrow> atom list \<Rightarrow> 'u list \<Rightarrow> nat \<Rightarrow> ('u list list \<times> 'u list) option
       \<Rightarrow> bool"
where
  end_of_pattern: "matches A [] s (Some ([], s))"
| quantifier: "tries A a ps s (longest A a s) r \<Longrightarrow> matches A (a # ps) s r"
| too_few: "k < lo a \<Longrightarrow> tries A a ps s k None"
| taken: "lo a \<le> k \<Longrightarrow> matches A ps (drop k s) (Some (gs, rest)) \<Longrightarrow>
          tries A a ps s k (Some ((if grp a then [take k s] else []) @ gs, rest))"
| exhausted: "lo a = 0 \<Longrightarrow> matches A ps s None \<Longrightarrow> tries A a ps s 0 None"
| give_back: "lo a \<le> Suc k \<Longrightarrow> matches A ps (drop (Suc k) s) None \<Longrightarrow> tries A a ps s k r \<Longrightarrow>
              tries A a ps s (Suc k) r"

code_pred matches .

text \<open>
  \<open>scan A ps t s out\<close>: the global replace of pattern \<open>ps\<close> by template \<open>t\<close> turns the
  text \<open>s\<close> into \<open>out\<close>. At each position the matcher is run once; a match is replaced
  and the scan goes on behind it, anything else is copied one unit at a time.
\<close>

inductive scan :: "'u alphabet \<Rightarrow> atom list \<Rightarrow> tpart list \<Rightarrow> 'u list \<Rightarrow> 'u list \<Rightarrow> bool" where
  at_end: "matches A ps [] None \<Longrightarrow> scan A ps t [] []"
| at_end_empty_match: "matches A ps [] (Some (gs, rest)) \<Longrightarrow> scan A ps t [] (fill A t gs)"
| copy: "matches A ps (c # cs) None \<Longrightarrow> scan A ps t cs out \<Longrightarrow> scan A ps t (c # cs) (c # out)"
| replace: "matches A ps (c # cs) (Some (gs, rest)) \<Longrightarrow> length rest < length (c # cs) \<Longrightarrow>
            scan A ps t rest out \<Longrightarrow> scan A ps t (c # cs) (fill A t gs @ out)"
| empty_match: "matches A ps (c # cs) (Some (gs, rest)) \<Longrightarrow> \<not> length rest < length (c # cs) \<Longrightarrow>
                scan A ps t cs out \<Longrightarrow> scan A ps t (c # cs) (fill A t gs @ c # out)"

code_pred scan .

text \<open>
  The \<^verbatim>\<open>forEach\<close> over the entries of the table. There is a step for an entry whose key
  is made of letters and digits and whose value has no \<^verbatim>\<open>$\<close>; for any other entry the
  run has no rule to go on with.
\<close>

inductive run_entries ::
    "'u alphabet \<Rightarrow> (string \<times> string) list \<Rightarrow> 'u list \<Rightarrow> 'u list \<Rightarrow> bool" where
  no_entry: "run_entries A [] s s"
| entry: "plain_key wrong \<Longrightarrow> plain_value correct \<Longrightarrow>
          scan A (literal wrong) [T correct] s s' \<Longrightarrow> run_entries A es s' out \<Longrightarrow>
          run_entries A ((wrong, correct) # es) s out"

code_pred run_entries .

text \<open>The eight chained \<^verbatim>\<open>replace\<close> calls that follow, in the order they are applied.\<close>

definition passes :: "(atom list \<times> tpart list) list" where
  "passes =
    [([one Digit, spaces1, one Digit], [G 1, G 2]),
     ([one (OneOf ''.,''), spaces1, one Digit], [G 1, G 2]),
     ([one Alpha, spaces1, one Digit], [G 1, G 2]),
     ([one Digit, spaces1, one Alpha], [G 1, G 2]),
     ([Atom Digit 1 (Some 2) True, spaces1, Atom Alpha 1 None True,
       lit CHR '','', spaces1, digits 4],
      [G 1, T '' '', G 2, T '', '', G 3]),
     ([Atom Alpha 1 None True, spaces1, Atom Digit 1 (Some 2) True,
       lit CHR '','', spaces1, digits 4],
      [G 1, T '' '', G 2, T '', '', G 3]),
     ([digits 4, spaces0, lit CHR ''-'', spaces0, digits 3,
       spaces0, lit CHR ''-'', spaces0, digits 3],
      [G 1, T ''-'', G 2, T ''-'', G 3]),
     ([digits 3, spaces0, lit CHR ''-'', spaces0, digits 4,
       spaces0, lit CHR ''-'', spaces0, digits 4],
      [G 1, T ''-'', G 2, T ''-'', G 3])]"

inductive run_passes ::
    "'u alphabet \<Rightarrow> (atom list \<times> tpart list) list \<Rightarrow> 'u list \<Rightarrow> 'u list \<Rightarrow> bool" where
  no_pass: "run_passes A [] s s"
| pass: "scan A ps t s s' \<Longrightarrow> run_passes A qs s' out \<Longrightarrow> run_passes A ((ps, t) # qs) s out"

code_pred run_passes .

text \<open>\<open>cleanText_run A s out\<close>: a call of \<open>cleanText\<close> on the text \<open>s\<close> returns \<open>out\<close>.\<close>

inductive cleanText_run :: "'u alphabet \<Rightarrow> 'u list \<Rightarrow> 'u list \<Rightarrow> bool" where
  returns: "run_entries A replacements s s1 \<Longrightarrow> run_passes A passes s1 out \<Longrightarrow>
            cleanText_run A s out"

code_pred cleanText_run .

section \<open>Extraction result validator: \<open>validTransactions\<close>\<close>

subsection \<open>Values of the untyped response\<close>

text \<open>
  A number is \<^verbatim>\<open>NaN\<close>, an infinity or a finite value; the validator tests and passes
  amounts on and never computes with them. \<open>JObject\<close> stands for an object or array.
\<close>

datatype js_number = NaN | PosInfinity | NegInfinity | Finite real

datatype js_value =
    JUndefined | JNull | JBool bool | JNum js_number | JStr string | JObject nat

text \<open>A candidate as the extraction service returns it; an absent field is \<open>JUndefined\<close>.\<close>

record candidate =
  c_date :: js_value
  c_description :: js_value
  c_amount :: js_value
  c_type :: js_value
  c_category :: js_value

datatype js_date = Date int | Invalid_Date

record transaction =
  tx_date :: js_date
  tx_description :: string
  tx_amount :: js_number
  tx_type :: string
  tx_categoryId :: string
  tx_userId :: string

subsection \<open>The runtime the handler runs on\<close>

datatype 'a completion = Normal 'a | Throw

text \<open>
  What the code takes from the JavaScript runtime is a parameter of the model: the clock
  read by \<^verbatim>\<open>new Date()\<close> (one instant for the whole batch), the constructor
  \<^verbatim>\<open>new Date(v)\<close> (whose reading of a string is left to the engine), the date part of
  \<^verbatim>\<open>toISOString()\<close>, \<^verbatim>\<open>parseFloat\<close>, and \<^verbatim>\<open>String(v)\<close> on a value that is not a string.
\<close>

record runtime =
  clock :: int
  new_Date :: "js_value \<Rightarrow> js_date completion"
  toISODate :: "int \<Rightarrow> string"
  parseFloat :: "js_value \<Rightarrow> js_number"
  ToString :: "js_value \<Rightarrow> string"

definition today :: "runtime \<Rightarrow> string" where
  \<comment> \<open>\<^verbatim>\<open>new Date().toISOString().split('T')[0]\<close>\<close>
  "today rt = toISODate rt (clock rt)"

definition truthy :: "js_value \<Rightarrow> bool" where
  "truthy v =
     (case v of
        JUndefined \<Rightarrow> False
      | JNull \<Rightarrow> False
      | JBool b \<Rightarrow> b
      | JNum n \<Rightarrow> n \<noteq> NaN \<and> n \<noteq> Finite 0
      | JStr s \<Rightarrow> s \<noteq> []
      | JObject r \<Rightarrow> True)"

definition is_string :: "js_value \<Rightarrow> bool" where
  \<comment> \<open>\<^verbatim>\<open>typeof v === 'string'\<close>\<close>
  "is_string v = (case v of JStr s \<Rightarrow> True | _ \<Rightarrow> False)"

definition invalid_amount :: "js_value \<Rightarrow> bool" where
  \<comment> \<open>\<^verbatim>\<open>typeof tx.amount !== 'number' || isNaN(tx.amount)\<close>\<close>
  "invalid_amount v = (case v of JNum n \<Rightarrow> n = NaN | _ \<Rightarrow> True)"

definition js_String :: "runtime \<Rightarrow> js_value \<Rightarrow> string" where
  "js_String rt v = (case v of JStr s \<Rightarrow> s | _ \<Rightarrow> ToString rt v)"

subsection \<open>The filter callback\<close>

text \<open>
  The callback decides whether the candidate is kept and, for a kept candidate, assigns
  to its \<open>type\<close>, \<open>date\<close> and \<open>description\<close>. It returns the decision together with the
  candidate object as the callback leaves it.
\<close>

definition filter_tx :: "runtime \<Rightarrow> candidate \<Rightarrow> bool \<times> candidate" where
  "filter_tx rt tx =
     (if invalid_amount (c_amount tx) then (False, tx)
      else
        let tx1 = (if c_type tx \<noteq> JStr ''INCOME'' \<and> c_type tx \<noteq> JStr ''EXPENSE''
                   then tx\<lparr>c_type := JStr ''EXPENSE''\<rparr> else tx);
            tx2 = (case new_Date rt (c_date tx1) of
                     Normal d \<Rightarrow>
                       if d = Invalid_Date then tx1\<lparr>c_date := JStr (today rt)\<rparr> else tx1
                   | Throw \<Rightarrow> tx1\<lparr>c_date := JStr (today rt)\<rparr>);
            tx3 = (if \<not> truthy (c_description tx2) \<or> \<not> is_string (c_description tx2)
                   then tx2\<lparr>c_description := JStr ''Unnamed transaction''\<rparr> else tx2)
        in (True, tx3))"

text \<open>
  \<^verbatim>\<open>analysis.transactions.filter(...)\<close>: the kept candidates, and the array
  \<^verbatim>\<open>analysis.transactions\<close> as the callbacks leave its elements.
\<close>

fun filter_txs :: "runtime \<Rightarrow> candidate list \<Rightarrow> candidate list \<times> candidate list" where
  "filter_txs rt [] = ([], [])"
| "filter_txs rt (tx # txs) =
     (case filter_tx rt tx of (keep, tx') \<Rightarrow>
        case filter_txs rt txs of (kept, after) \<Rightarrow>
          (if keep then tx' # kept else kept, tx' # after))"

subsection \<open>The map callback and the placeholder\<close>

definition map_tx :: "runtime \<Rightarrow> string \<Rightarrow> string \<Rightarrow> candidate \<Rightarrow> transaction" where
  "map_tx rt categoryId userId tx =
     (let date = (case new_Date rt (c_date tx) of
                    Normal d \<Rightarrow> if d = Invalid_Date then Date (clock rt) else d
                  | Throw \<Rightarrow> Date (clock rt));
          amount = (case c_amount tx of JNum n \<Rightarrow> n | v \<Rightarrow> parseFloat rt v)
      in \<lparr>tx_date = date,
          tx_description = take 255 (js_String rt (c_description tx)),
          tx_amount = (if amount = NaN then Finite 0 else amount),
          tx_type = (if c_type tx = JStr ''INCOME'' then ''INCOME'' else ''EXPENSE''),
          tx_categoryId = categoryId,
          tx_userId = userId\<rparr>)"

definition default_transaction :: "runtime \<Rightarrow> string \<Rightarrow> string \<Rightarrow> transaction" where
  "default_transaction rt categoryId userId =
     \<lparr>tx_date = Date (clock rt),
      tx_description = ''Default transaction (no valid transactions detected)'',
      tx_amount = Finite 100,
      tx_type = ''EXPENSE'',
      tx_categoryId = categoryId,
      tx_userId = userId\<rparr>"

text \<open>
  The list handed to the store, and \<^verbatim>\<open>analysis.transactions\<close> after the pass.
\<close>

definition validTransactions ::
  "runtime \<Rightarrow> string \<Rightarrow> string \<Rightarrow> candidate list \<Rightarrow> transaction list \<times> candidate list" where
  "validTransactions rt categoryId userId txs =
     (case filter_txs rt txs of (kept, after) \<Rightarrow>
        let mapped = map (map_tx rt categoryId userId) kept
        in (if length mapped = 0 then [default_transaction rt categoryId userId] else mapped,
            after))"

definition accepted :: "runtime \<Rightarrow> string \<Rightarrow> string \<Rightarrow> candidate list \<Rightarrow> transaction list" where
  "accepted rt categoryId userId txs = fst (validTransactions rt categoryId userId txs)"

definition dropped :: "runtime \<Rightarrow> candidate list \<Rightarrow> candidate list" where
  \<comment> \<open>the candidates for which the filter callback returns \<^verbatim>\<open>false\<close>\<close>
  "dropped rt txs = filter (\<lambda>tx. \<not> fst (filter_tx rt tx)) txs"

text \<open>
  The fallbacks in the words of the specification: an unknown type becomes
  \<^verbatim>\<open>EXPENSE\<close>, an unparseable date the current processing date, a missing, non-string
  or empty description the fixed text; the description is cut at 255 units. The current
  processing date is today's ISO date read back by \<^verbatim>\<open>new Date\<close> (the clock itself where
  the runtime does not read it as a date). \<open>spec_transaction\<close> is the transaction of a
  candidate whose amount is a number.
\<close>

definition date_of :: "runtime \<Rightarrow> js_value \<Rightarrow> js_date" where
  \<comment> \<open>the date \<^verbatim>\<open>new Date(v)\<close> yields; no valid date either where the constructor throws\<close>
  "date_of rt v = (case new_Date rt v of Normal d \<Rightarrow> d | Throw \<Rightarrow> Invalid_Date)"

definition unparseable :: "runtime \<Rightarrow> js_value \<Rightarrow> bool" where
  "unparseable rt v = (date_of rt v = Invalid_Date)"

definition processing_date :: "runtime \<Rightarrow> js_date" where
  "processing_date rt =
     (if unparseable rt (JStr (today rt)) then Date (clock rt)
      else date_of rt (JStr (today rt)))"

definition spec_transaction :: "runtime \<Rightarrow> string \<Rightarrow> string \<Rightarrow> candidate \<Rightarrow> transaction" where
  "spec_transaction rt categoryId userId tx =
     \<lparr>tx_date = (if unparseable rt (c_date tx) then processing_date rt
                 else date_of rt (c_date tx)),
      tx_description = take 255 (case c_description tx of
                                   JStr s \<Rightarrow> if s = [] then ''Unnamed transaction'' else s
                                 | _ \<Rightarrow> ''Unnamed transaction''),
      tx_amount = (case c_amount tx of JNum n \<Rightarrow> n | _ \<Rightarrow> NaN),
      tx_type = (if c_type tx = JStr ''INCOME'' then ''INCOME'' else ''EXPENSE''),
      tx_categoryId = categoryId,
      tx_userId = userId\<rparr>"

text \<open>
  The amounts the data model of the specification allows: finite and not negative.
\<close>

definition finite_nonneg :: "js_number \<Rightarrow> bool" where
  "finite_nonneg n = (case n of Finite r \<Rightarrow> 0 \<le> r | _ \<Rightarrow> False)"

subsection \<open>Concrete inputs\<close>

text \<open>
  A runtime for concrete evaluation: the clock at the epoch, 1 January 1970, with what
  \<^verbatim>\<open>new Date\<close>, \<^verbatim>\<open>parseFloat\<close> and \<^verbatim>\<open>String\<close> answer on the values used below
  (\<^verbatim>\<open>new Date('not-a-date')\<close> is an invalid date).
\<close>

definition epoch_runtime :: runtime where
  "epoch_runtime =
     \<lparr>clock = 0,
      new_Date = (\<lambda>v. if v = JStr ''1970-01-01'' then Normal (Date 0) else Normal Invalid_Date),
      toISODate = (\<lambda>t. ''1970-01-01''),
      parseFloat = (\<lambda>v. if v = JStr ''42.5'' then Finite 42.5 else NaN),
      ToString = (\<lambda>v. if v = JUndefined then ''undefined'' else ''null'')\<rparr>"

text \<open>
  The candidate of the specification's scenario,
  \<^verbatim>\<open>{date:"not-a-date", description:"", amount:42.5, type:"XYZ"}\<close>; the same candidate
  with its amount as the string \<^verbatim>\<open>"42.5"\<close>; and a well-formed refund of amount \<^verbatim>\<open>-5\<close>.
\<close>

definition scenario_candidate :: candidate where
  "scenario_candidate =
     \<lparr>c_date = JStr ''not-a-date'', c_description = JStr [],
      c_amount = JNum (Finite 42.5), c_type = JStr ''XYZ'', c_category = JUndefined\<rparr>"

definition string_amount_candidate :: candidate where
  "string_amount_candidate = scenario_candidate\<lparr>c_amount := JStr ''42.5''\<rparr>"

definition refund_candidate :: candidate where
  "refund_candidate =
     \<lparr>c_date = JStr ''1970-01-01'', c_description = JStr ''refund'',
      c_amount = JNum (Finite (- 5)), c_type = JStr ''INCOME'', c_category = JStr ''Shopping''\<rparr>"

section \<open>Persisting the document\<close>

record doc_data =
  fileName :: string
  fileType :: string
  fileSize :: nat
  status :: string
  userId :: string

text \<open>
  The store is a parameter: what \<^verbatim>\<open>prisma.document.create\<close> answers to the call with
  nested transactions (and \<^verbatim>\<open>include: { transactions: true }\<close>) and to the call with
  the document alone: the created row, or the message of the error it throws. The row
  of the second call has no \<open>transactions\<close> property.
\<close>

record ('row, 'txrow) store =
  create_with_transactions :: "doc_data \<Rightarrow> transaction list \<Rightarrow> string + 'row \<times> 'txrow list"
  create_document_only :: "doc_data \<Rightarrow> string + 'row"

datatype db_call = Create_with_transactions doc_data "transaction list" | Create_document_only doc_data

record ('row, 'txrow) document =
  columns :: 'row
  transactions :: "'txrow list option"

definition create_full ::
  "('row, 'txrow) store \<Rightarrow> doc_data \<Rightarrow> transaction list \<Rightarrow> db_call list
     \<Rightarrow> (string + ('row, 'txrow) document) \<times> db_call list" where
  "create_full st d txs calls =
     (case create_with_transactions st d txs of
        Inl e \<Rightarrow> Inl e
      | Inr (r, ts) \<Rightarrow> Inr \<lparr>columns = r, transactions = Some ts\<rparr>,
      calls @ [Create_with_transactions d txs])"

definition create_alone ::
  "('row, 'txrow) store \<Rightarrow> doc_data \<Rightarrow> db_call list
     \<Rightarrow> (string + ('row, 'txrow) document) \<times> db_call list" where
  "create_alone st d calls =
     (case create_document_only st d of
        Inl e \<Rightarrow> Inl e
      | Inr r \<Rightarrow> Inr \<lparr>columns = r, transactions = None\<rparr>,
      calls @ [Create_document_only d])"

text \<open>
  The \<^verbatim>\<open>try\<close> block that validates and saves, its \<^verbatim>\<open>catch\<close> with the second attempt, and
  the error thrown when that fails too.
\<close>

definition save_document ::
  "('row, 'txrow) store \<Rightarrow> runtime \<Rightarrow> doc_data \<Rightarrow> string \<Rightarrow> string \<Rightarrow> candidate list
     \<Rightarrow> db_call list \<Rightarrow> (string + ('row, 'txrow) document) \<times> db_call list" where
  "save_document st rt d categoryId uid txs calls =
     (case create_full st d (accepted rt categoryId uid txs) calls of
        (Inr document, calls1) \<Rightarrow> (Inr document, calls1)
      | (Inl error, calls1) \<Rightarrow>
          (case create_alone st d calls1 of
             (Inr document, calls2) \<Rightarrow> (Inr document, calls2)
           | (Inl fallbackError, calls2) \<Rightarrow>
               (Inl ''Failed to save document and transactions to database'', calls2)))"

datatype ('row, 'txrow, 'summary) body =
    Result "('row, 'txrow) document" 'summary "'txrow list"
  | Failure string string

datatype ('row, 'txrow, 'summary) response = Response nat "('row, 'txrow, 'summary) body"

definition respond ::
  "'summary \<Rightarrow> string + ('row, 'txrow) document \<Rightarrow> ('row, 'txrow, 'summary) response" where
  "respond summary r =
     (case r of
        Inr document \<Rightarrow>
          Response 200 (Result document summary
            (case transactions document of Some ts \<Rightarrow> ts | None \<Rightarrow> []))
      | Inl message \<Rightarrow> Response 500 (Failure ''Failed to process document'' message))"

definition status_code :: "('row, 'txrow, 'summary) response \<Rightarrow> nat" where
  "status_code r = (case r of Response code b \<Rightarrow> code)"

definition handler_save ::
  "('row, 'txrow) store \<Rightarrow> runtime \<Rightarrow> doc_data \<Rightarrow> 'summary \<Rightarrow> string \<Rightarrow> string
     \<Rightarrow> candidate list \<Rightarrow> ('row, 'txrow, 'summary) response \<times> db_call list" where
  "handler_save st rt d summary categoryId uid txs =
     (case save_document st rt d categoryId uid txs [] of
        (r, calls) \<Rightarrow> (respond summary r, calls))"

text \<open>
  A store for concrete evaluation: it refuses every document that comes with
  transactions and stores the document alone as row \<open>1\<close>.
\<close>

definition refusing_store :: "(nat, nat) store" where
  "refusing_store =
     \<lparr>create_with_transactions = (\<lambda>d txs. Inl ''Foreign key constraint failed''),
      create_document_only = (\<lambda>d. Inr 1)\<rparr>"

definition upload :: doc_data where
  "upload = \<lparr>fileName = ''statement.png'', fileType = ''image/png'', fileSize = 2048,
             status = ''COMPLETED'', userId = ''usr''\<rparr>"

section \<open>Properties of the text normalizer\<close>

subsection \<open>What a match consumes\<close>

lemma greedy_le: "greedy a s \<le> length (takeWhile (in_class (cls a)) s)"
  by (simp add: greedy_def Let_def split: option.splits)

lemma greedy_hi: "hi a = Some h \<Longrightarrow> greedy a s \<le> h"
  by (simp add: greedy_def Let_def)

lemma match_rep_Some:
  "match_rep a ps s k = Some (gs, rest) \<Longrightarrow>
     \<exists>j gs'. j \<le> k \<and> lo a \<le> j \<and> match_seq ps (drop j s) = Some (gs', rest)
       \<and> gs = (if grp a then [take j s] else []) @ gs'"
proof (induction k)
  case 0
  then show ?case by (subst (asm) match_rep.simps) (auto split: if_splits option.splits)
next
  case (Suc k)
  show ?case
  proof (cases "match_seq ps (drop (Suc k) s)")
    case None
    with Suc.prems have "match_rep a ps s k = Some (gs, rest)"
      by (subst (asm) match_rep.simps) (simp split: if_splits)
    from Suc.IH [OF this] obtain j gs' where "j \<le> k" "lo a \<le> j"
      "match_seq ps (drop j s) = Some (gs', rest)"
      "gs = (if grp a then [take j s] else []) @ gs'" by blast
    then show ?thesis by (intro exI [of _ j] exI [of _ gs']) simp
  next
    case (Some r)
    with Suc.prems show ?thesis
      by (subst (asm) match_rep.simps) (cases r, auto split: if_splits intro!: exI [of _ "Suc k"])
  qed
qed

lemma take_in_class:
  assumes "j \<le> length (takeWhile P s)"
  shows "\<forall>c \<in> set (take j s). P c"
proof -
  have "take j s = take j (takeWhile P s)"
    using assms by (metis takeWhile_dropWhile_id take_append diff_is_0_eq take_0 append_Nil2)
  then show ?thesis
    by (metis in_set_takeD set_takeWhileD)
qed

lemma match_seq_ConsE:
  assumes "match_seq (a # ps) s = Some (gs, rest)"
  obtains u v gs' where "s = u @ v" "lo a \<le> length u"
    "\<forall>h. hi a = Some h \<longrightarrow> length u \<le> h"
    "\<forall>c \<in> set u. in_class (cls a) c"
    "match_seq ps v = Some (gs', rest)"
    "gs = (if grp a then [u] else []) @ gs'"
proof -
  from assms have "match_rep a ps s (greedy a s) = Some (gs, rest)" by simp
  from match_rep_Some [OF this] obtain j gs' where j: "j \<le> greedy a s" "lo a \<le> j"
    "match_seq ps (drop j s) = Some (gs', rest)" "gs = (if grp a then [take j s] else []) @ gs'"
    by blast
  have jl: "j \<le> length (takeWhile (in_class (cls a)) s)" using j(1) greedy_le le_trans by blast
  then have "j \<le> length s" using length_takeWhile_le le_trans by blast
  then have len: "length (take j s) = j" by simp
  show ?thesis
  proof (rule that [of "take j s" "drop j s" gs'])
    show "s = take j s @ drop j s" by simp
    show "lo a \<le> length (take j s)" using j(2) len by simp
    show "\<forall>h. hi a = Some h \<longrightarrow> length (take j s) \<le> h"
      using greedy_hi j(1) len by (metis le_trans)
    show "\<forall>c \<in> set (take j s). in_class (cls a) c" using take_in_class [OF jl] .
    show "match_seq ps (drop j s) = Some (gs', rest)" by fact
    show "gs = (if grp a then [take j s] else []) @ gs'" by fact
  qed
qed

lemma match_seq_needs:
  assumes "a \<in> set ps" "1 \<le> lo a" "\<forall>c \<in> set s. \<not> in_class (cls a) c"
  shows "match_seq ps s = None"
  using assms
proof (induction ps arbitrary: s)
  case Nil
  then show ?case by simp
next
  case (Cons b ps)
  show ?case
  proof (rule ccontr)
    assume "match_seq (b # ps) s \<noteq> None"
    then obtain gs rest where m: "match_seq (b # ps) s = Some (gs, rest)" by auto
    from m obtain u v gs' where uv: "s = u @ v" "lo b \<le> length u"
      "\<forall>c \<in> set u. in_class (cls b) c" "match_seq ps v = Some (gs', rest)"
      by (rule match_seq_ConsE)
    show False
    proof (cases "a = b")
      case True
      with Cons.prems uv(1,2,3) show False by (cases u) auto
    next
      case False
      with Cons.prems have "a \<in> set ps" by simp
      moreover have "\<forall>c \<in> set v. \<not> in_class (cls a) c" using Cons.prems(3) uv(1) by simp
      ultimately have "match_seq ps v = None" using Cons.IH Cons.prems(2) by blast
      with uv(4) show False by simp
    qed
  qed
qed

lemma replace_g_id:
  assumes step: "\<And>s gs rest. list_all Q s \<Longrightarrow> match_seq ps s = Some (gs, rest) \<Longrightarrow>
            \<exists>u. u \<noteq> [] \<and> s = u @ rest \<and> subst t gs = u"
  shows "list_all Q s \<Longrightarrow> replace_g ps t s = s"
proof (induction "length s" arbitrary: s rule: less_induct)
  case less
  show ?case
  proof (cases "match_seq ps s")
    case None
    show ?thesis
    proof (cases s)
      case Nil
      with None show ?thesis by (subst replace_g.simps) simp
    next
      case (Cons c cs)
      with less have "replace_g ps t cs = cs" by simp
      with None Cons show ?thesis by (subst replace_g.simps) simp
    qed
  next
    case (Some r)
    obtain gs rest where r: "r = (gs, rest)" by (cases r)
    from step [OF less.prems Some [unfolded r]] obtain u where
      u: "u \<noteq> []" "s = u @ rest" "subst t gs = u" by blast
    then have "length rest < length s" by simp
    moreover have "list_all Q rest" using less.prems u(2) by simp
    ultimately have "replace_g ps t rest = rest" using less.hyps by blast
    with Some r u \<open>length rest < length s\<close> show ?thesis
      by (subst replace_g.simps) simp
  qed
qed

lemma replace_g_no_match:
  assumes "a \<in> set ps" "1 \<le> lo a" "\<And>c. Q c \<Longrightarrow> \<not> in_class (cls a) c"
  shows "list_all Q s \<Longrightarrow> replace_g ps t s = s"
proof (rule replace_g_id [where Q = Q])
  fix s' gs rest
  assume "list_all Q s'" "match_seq ps s' = Some (gs, rest)"
  moreover from \<open>list_all Q s'\<close> have "\<forall>c \<in> set s'. \<not> in_class (cls a) c"
    using assms(3) by (simp add: list_all_iff)
  ultimately show "\<exists>u. u \<noteq> [] \<and> s' = u @ rest \<and> subst t gs = u"
    using match_seq_needs [OF assms(1,2)] by simp
qed

lemma replacements_alpha:
  "list_all (\<lambda>e. plain_key (fst e) \<and> plain_value (snd e) \<and> list_ex is_alpha (fst e)) replacements"
  by code_simp

lemma apply_entry_quiet:
  assumes "plain_key w" "plain_value c" "list_ex is_alpha w" "list_all quiet s"
  shows "apply_entry (w, c) s = Inr s"
proof -
  from assms(3) obtain x where x: "x \<in> set w" "is_alpha x" by (auto simp: list_ex_iff)
  then have "Atom (OneOf [x]) 1 (Some 1) False \<in> set (literal w)"
    by (auto simp: literal_def)
  from replace_g_no_match [OF this, where Q = quiet and s = s and t = "[T c]"] x(2) assms(4)
  have "replace_g (literal w) [T c] s = s" by auto
  with assms(1,2) show ?thesis by (simp add: apply_entry_def)
qed

lemma apply_entries_quiet:
  "list_all (\<lambda>e. plain_key (fst e) \<and> plain_value (snd e) \<and> list_ex is_alpha (fst e)) es \<Longrightarrow>
   list_all quiet s \<Longrightarrow> apply_entries es s = Inr s"
proof (induction es)
  case Nil
  then show ?case by simp
next
  case (Cons e es)
  obtain w c where e: "e = (w, c)" by (cases e)
  with Cons.prems have "apply_entry (w, c) s = Inr s"
    by (intro apply_entry_quiet) simp_all
  with Cons e show ?case by simp
qed

lemma fix_spacing_quiet: "list_all quiet s \<Longrightarrow> fix_spacing s = s"
proof -
  assume q: "list_all quiet s"
  have sp: "\<And>ps t. spaces1 \<in> set ps \<Longrightarrow> replace_g ps t s = s"
    by (rule replace_g_no_match [where Q = quiet and a = spaces1]) (use q in simp_all)
  show ?thesis by (simp add: fix_spacing_def sp)
qed

lemma fix_dates_quiet: "list_all quiet s \<Longrightarrow> fix_dates s = s"
proof -
  assume q: "list_all quiet s"
  have sp: "\<And>ps t. spaces1 \<in> set ps \<Longrightarrow> replace_g ps t s = s"
    by (rule replace_g_no_match [where Q = quiet and a = spaces1]) (use q in simp_all)
  show ?thesis by (simp add: fix_dates_def sp)
qed


lemma spaces0_step:
  assumes "list_all quiet s" "match_seq (spaces0 # ps) s = Some (gs, rest)"
  shows "match_seq ps s = Some (gs, rest)"
proof -
  from assms(2) obtain u v gs' where uv: "s = u @ v" "\<forall>c \<in> set u. in_class (cls spaces0) c"
    "match_seq ps v = Some (gs', rest)" "gs = (if grp spaces0 then [u] else []) @ gs'"
    by (rule match_seq_ConsE)
  from assms(1) uv(1,2) have "u = []" by (cases u) auto
  with uv show ?thesis by simp
qed

lemma lit_step:
  assumes "match_seq (lit c # ps) s = Some (gs, rest)"
  obtains v where "s = c # v" "match_seq ps v = Some (gs, rest)"
proof -
  from assms obtain u v gs' where uv: "s = u @ v" "lo (lit c) \<le> length u"
    "\<forall>h. hi (lit c) = Some h \<longrightarrow> length u \<le> h"
    "\<forall>x \<in> set u. in_class (cls (lit c)) x"
    "match_seq ps v = Some (gs', rest)" "gs = (if grp (lit c) then [u] else []) @ gs'"
    by (rule match_seq_ConsE)
  from uv(2,3) have "length u = 1" by (simp add: le_antisym)
  then obtain x where "u = [x]" by (cases u) auto
  with uv(4) have "u = [c]" by simp
  with uv(1,5,6) show ?thesis by (intro that [of v]) simp_all
qed

lemma group_step:
  assumes "match_seq (Atom cl n h True # ps) s = Some (gs, rest)"
  obtains u v gs' where "s = u @ v" "n \<le> length u" "gs = u # gs'"
    "match_seq ps v = Some (gs', rest)"
proof -
  from assms obtain u v gs' where uv: "s = u @ v" "lo (Atom cl n h True) \<le> length u"
    "match_seq ps v = Some (gs', rest)"
    "gs = (if grp (Atom cl n h True) then [u] else []) @ gs'"
    by (rule match_seq_ConsE)
  then show ?thesis by (intro that [of u v gs']) simp_all
qed

lemma account_step:
  assumes q: "list_all quiet s" and a: "0 < a"
    and m: "match_seq [digits a, spaces0, lit CHR ''-'', spaces0, digits b,
                       spaces0, lit CHR ''-'', spaces0, digits c] s = Some (gs, rest)"
  shows "\<exists>u. u \<noteq> [] \<and> s = u @ rest \<and> subst [G 1, T ''-'', G 2, T ''-'', G 3] gs = u"
proof -
  from m obtain u1 v1 g1 where 1: "s = u1 @ v1" "a \<le> length u1" "gs = u1 # g1"
    and m1: "match_seq [spaces0, lit CHR ''-'', spaces0, digits b,
                        spaces0, lit CHR ''-'', spaces0, digits c] v1 = Some (g1, rest)"
    by (rule group_step)
  from q 1(1) have q1: "list_all quiet v1" by simp
  from spaces0_step [OF q1 m1] obtain v2 where 2: "v1 = CHR ''-'' # v2"
    and m2: "match_seq [spaces0, digits b, spaces0, lit CHR ''-'', spaces0, digits c] v2
               = Some (g1, rest)"
    by (rule lit_step)
  from q1 2 have q2: "list_all quiet v2" by simp
  from spaces0_step [OF q2 m2] obtain u3 v3 g3 where 3: "v2 = u3 @ v3" "g1 = u3 # g3"
    and m3: "match_seq [spaces0, lit CHR ''-'', spaces0, digits c] v3 = Some (g3, rest)"
    by (rule group_step)
  from q2 3(1) have q3: "list_all quiet v3" by simp
  from spaces0_step [OF q3 m3] obtain v4 where 4: "v3 = CHR ''-'' # v4"
    and m4: "match_seq [spaces0, digits c] v4 = Some (g3, rest)"
    by (rule lit_step)
  from q3 4 have q4: "list_all quiet v4" by simp
  from spaces0_step [OF q4 m4] obtain u5 v5 g5 where 5: "v4 = u5 @ v5" "g3 = u5 # g5"
    and m5: "match_seq [] v5 = Some (g5, rest)"
    by (rule group_step)
  from m5 have 6: "g5 = []" "rest = v5" by simp_all
  have "gs = [u1, u3, u5]" using 1(3) 3(2) 5(2) 6(1) by simp
  moreover have "s = (u1 @ ''-'' @ u3 @ ''-'' @ u5) @ rest"
    using 1(1) 2 3(1) 4 5(1) 6(2) by simp
  ultimately show ?thesis
    by (intro exI [of _ "u1 @ ''-'' @ u3 @ ''-'' @ u5"]) simp
qed

lemma fix_accounts_quiet: "list_all quiet s \<Longrightarrow> fix_accounts s = s"
proof -
  assume q: "list_all quiet s"
  have "\<And>a b c. 0 < a \<Longrightarrow>
          replace_g [digits a, spaces0, lit CHR ''-'', spaces0, digits b,
                     spaces0, lit CHR ''-'', spaces0, digits c]
                    [G 1, T ''-'', G 2, T ''-'', G 3] s = s"
    by (rule replace_g_id [where Q = quiet, OF account_step q]) simp_all
  then show ?thesis by (simp add: fix_accounts_def)
qed

subsection \<open>Every entry of the table is covered by the model\<close>

lemma replacements_plain:
  "list_all (\<lambda>e. plain_key (fst e) \<and> plain_value (snd e)) replacements"
  by code_simp

lemma apply_entries_plain:
  "list_all (\<lambda>e. plain_key (fst e) \<and> plain_value (snd e)) es \<Longrightarrow>
     \<exists>out. apply_entries es s = Inr out"
  by (induction es arbitrary: s) (auto simp: apply_entry_def split: prod.splits)

text \<open>
  C1. On the input \<^verbatim>\<open>Acc0un75ummary R0ya1 8ank\<close> the normalizer returns
  \<^verbatim>\<open>Account5ummary Royal Bank\<close>: the entry \<^verbatim>\<open>Acc0un7\<close> comes before the longer entry
  \<^verbatim>\<open>Acc0un75ummary\<close> in the table and takes its first seven units away, so the longer
  entry never matches. The output does not contain \<^verbatim>\<open>Account Summary Royal Bank\<close>.
\<close>

theorem cleanText_account_summary:
  "cleanText ''Acc0un75ummary R0ya1 8ank'' = Inr ''Account5ummary Royal Bank'' \<and>
   \<not> sublist ''Account Summary Royal Bank'' ''Account5ummary Royal Bank''"
proof
  show "cleanText ''Acc0un75ummary R0ya1 8ank'' = Inr ''Account5ummary Royal Bank''"
    by code_simp
  show "\<not> sublist ''Account Summary Royal Bank'' ''Account5ummary Royal Bank''"
    by code_simp
qed

subsection \<open>The matcher always ends, in one way\<close>

lemma tries_total:
  assumes rest: "\<And>s'. \<exists>r. matches A ps s' r"
  shows "\<exists>r. tries A a ps s k r"
proof (induction k)
  case 0
  show ?case
  proof (cases "0 < lo a")
    case True
    then show ?thesis by (blast intro: too_few)
  next
    case False
    obtain r where r: "matches A ps (drop 0 s) r" using rest by blast
    show ?thesis
    proof (cases r)
      case None
      with r False show ?thesis by (auto intro: exhausted)
    next
      case (Some p)
      obtain gs rest' where "p = (gs, rest')" by (cases p)
      with Some r False taken [of a 0 A ps s gs rest'] show ?thesis by auto
    qed
  qed
next
  case (Suc k)
  show ?case
  proof (cases "Suc k < lo a")
    case True
    then show ?thesis by (blast intro: too_few)
  next
    case False
    then have lo: "lo a \<le> Suc k" by simp
    obtain r where r: "matches A ps (drop (Suc k) s) r" using rest by blast
    show ?thesis
    proof (cases r)
      case None
      from Suc obtain r' where "tries A a ps s k r'" by blast
      with None r lo show ?thesis by (blast intro: give_back)
    next
      case (Some p)
      obtain gs rest' where "p = (gs, rest')" by (cases p)
      with Some r lo taken [of a "Suc k" A ps s gs rest'] show ?thesis by blast
    qed
  qed
qed

lemma matches_total: "\<exists>r. matches A ps s r"
proof (induction ps arbitrary: s)
  case Nil
  show ?case by (blast intro: end_of_pattern)
next
  case (Cons a ps)
  from tries_total [of A ps a s "longest A a s"] Cons
  obtain r where "tries A a ps s (longest A a s) r" by blast
  then show ?case by (blast intro: quantifier)
qed

lemma matches_determ: "matches A ps s r \<Longrightarrow> matches A ps s r' \<Longrightarrow> r' = r"
  and tries_determ: "tries A a qs s0 k r0 \<Longrightarrow> tries A a qs s0 k r0' \<Longrightarrow> r0' = r0"
proof (induction arbitrary: r' and r0' rule: matches_tries.inducts)
  case (end_of_pattern A s)
  then show ?case by (auto elim: matches.cases)
next
  case (quantifier A a ps s r)
  from quantifier.prems have "tries A a ps s (longest A a s) r'"
    by (auto elim: matches.cases)
  then show ?case by (rule quantifier.IH)
next
  case (too_few k a A ps s)
  from too_few.prems too_few.hyps show ?case
    by (auto elim: tries.cases)
next
  case (taken a k A ps s gs rest)
  from taken.prems show ?case
  proof (cases rule: tries.cases)
    case too_few
    with taken.hyps show ?thesis by simp
  next
    case (taken gs' rest')
    with taken.IH [of "Some (gs', rest')"] show ?thesis by simp
  next
    case exhausted
    with taken.IH [of None] show ?thesis by simp
  next
    case (give_back k')
    with taken.IH [of None] show ?thesis by simp
  qed
next
  case (exhausted a A ps s)
  from exhausted.prems show ?case
  proof (cases rule: tries.cases)
    case too_few
    then show ?thesis by simp
  next
    case (taken gs' rest')
    with exhausted.IH [of "Some (gs', rest')"] show ?thesis by simp
  next
    case exhausted
    then show ?thesis by simp
  qed
next
  case (give_back a k A ps s r)
  from give_back.prems show ?case
  proof (cases rule: tries.cases)
    case too_few
    with give_back.hyps show ?thesis by simp
  next
    case (taken gs' rest')
    with give_back.IH(1) [of "Some (gs', rest')"] show ?thesis by simp
  next
    case give_back
    with give_back.IH(2) [of r0'] show ?thesis by simp
  qed
qed

subsection \<open>A global replace always ends, in one way\<close>

lemma scan_total: "\<exists>out. scan A ps t s out"
proof (induction "length s" arbitrary: s rule: less_induct)
  case less
  obtain r where r: "matches A ps s r" using matches_total by blast
  show ?case
  proof (cases s)
    case Nil
    with r show ?thesis by (cases r) (auto intro: at_end at_end_empty_match)
  next
    case (Cons c cs)
    from less Cons obtain out1 where out1: "scan A ps t cs out1" by fastforce
    show ?thesis
    proof (cases r)
      case None
      with r Cons out1 show ?thesis by (blast intro: copy)
    next
      case (Some p)
      obtain gs rest where p: "p = (gs, rest)" by (cases p)
      show ?thesis
      proof (cases "length rest < length (c # cs)")
        case True
        with less Cons obtain out2 where "scan A ps t rest out2" by fastforce
        with r Some p Cons True show ?thesis by (blast intro: replace)
      next
        case False
        with r Some p Cons out1 show ?thesis by (blast intro: empty_match)
      qed
    qed
  qed
qed

lemma scan_determ: "scan A ps t s out \<Longrightarrow> scan A ps t s out' \<Longrightarrow> out' = out"
proof (induction arbitrary: out' rule: scan.induct)
  case (at_end A ps t)
  from at_end.prems at_end.hyps show ?case
    by (auto elim!: scan.cases dest: matches_determ)
next
  case (at_end_empty_match A ps gs rest t)
  from at_end_empty_match.prems at_end_empty_match.hyps show ?case
    by (auto elim!: scan.cases dest: matches_determ)
next
  case (copy A ps c cs t out)
  from copy.prems show ?case
  proof (cases rule: scan.cases)
    case (copy out2)
    with copy.IH show ?thesis by simp
  next
    case (replace gs rest out2)
    with copy.hyps(1) show ?thesis by (auto dest: matches_determ)
  next
    case (empty_match gs rest out2)
    with copy.hyps(1) show ?thesis by (auto dest: matches_determ)
  qed
next
  case (replace A ps c cs gs rest t out)
  from replace.prems show ?case
  proof (cases rule: scan.cases)
    case (copy out2)
    with replace.hyps(1) show ?thesis by (auto dest: matches_determ)
  next
    case (replace gs2 rest2 out2)
    with replace.hyps(1) have "gs2 = gs" "rest2 = rest" by (auto dest: matches_determ)
    with replace replace.IH show ?thesis by simp
  next
    case (empty_match gs2 rest2 out2)
    with replace.hyps(1) have "rest2 = rest" by (auto dest: matches_determ)
    with empty_match replace.hyps(2) show ?thesis by simp
  qed
next
  case (empty_match A ps c cs gs rest t out)
  from empty_match.prems show ?case
  proof (cases rule: scan.cases)
    case (copy out2)
    with empty_match.hyps(1) show ?thesis by (auto dest: matches_determ)
  next
    case (replace gs2 rest2 out2)
    with empty_match.hyps(1) have "rest2 = rest" by (auto dest: matches_determ)
    with replace empty_match.hyps(2) show ?thesis by simp
  next
    case (empty_match gs2 rest2 out2)
    with empty_match.hyps(1) have "gs2 = gs" by (auto dest: matches_determ)
    with empty_match empty_match.IH show ?thesis by simp
  qed
qed

subsection \<open>The table and the passes always end, in one way\<close>

lemma run_entries_total:
  "list_all (\<lambda>e. plain_key (fst e) \<and> plain_value (snd e)) es \<Longrightarrow> \<exists>out. run_entries A es s out"
proof (induction es arbitrary: s)
  case Nil
  show ?case by (blast intro: no_entry)
next
  case (Cons e es)
  obtain w c where e: "e = (w, c)" by (cases e)
  obtain s' where "scan A (literal w) [T c] s s'" using scan_total by blast
  moreover from Cons obtain out where "run_entries A es s' out" by fastforce
  ultimately show ?case using Cons.prems e by (auto intro: entry)
qed

lemma run_entries_determ:
  "run_entries A es s out \<Longrightarrow> run_entries A es s out' \<Longrightarrow> out' = out"
proof (induction arbitrary: out' rule: run_entries.induct)
  case (no_entry A s)
  then show ?case by (auto elim: run_entries.cases)
next
  case (entry wrong correct A s s' es out)
  from entry.prems obtain s2 where "scan A (literal wrong) [T correct] s s2"
    "run_entries A es s2 out'"
    by (auto elim: run_entries.cases)
  with entry.hyps(3) entry.IH show ?case by (auto dest: scan_determ)
qed

lemma run_passes_total: "\<exists>out. run_passes A qs s out"
proof (induction qs arbitrary: s)
  case Nil
  show ?case by (blast intro: no_pass)
next
  case (Cons q qs)
  obtain ps t where q: "q = (ps, t)" by (cases q)
  obtain s' where "scan A ps t s s'" using scan_total by blast
  moreover from Cons obtain out where "run_passes A qs s' out" by blast
  ultimately show ?case using q by (auto intro: pass)
qed

lemma run_passes_determ:
  "run_passes A qs s out \<Longrightarrow> run_passes A qs s out' \<Longrightarrow> out' = out"
proof (induction arbitrary: out' rule: run_passes.induct)
  case (no_pass A s)
  then show ?case by (auto elim: run_passes.cases)
next
  case (pass A ps t s s' qs out)
  from pass.prems obtain s2 where "scan A ps t s s2" "run_passes A qs s2 out'"
    by (auto elim: run_passes.cases)
  with pass.hyps(1) pass.IH show ?case by (auto dest: scan_determ)
qed

lemma cleanText_run_total: "\<exists>out. cleanText_run A s out"
proof -
  obtain s1 where "run_entries A replacements s s1"
    using run_entries_total [OF replacements_plain] by blast
  moreover obtain out where "run_passes A passes s1 out" using run_passes_total by blast
  ultimately show ?thesis by (blast intro: returns)
qed

lemma cleanText_run_determ:
  assumes "cleanText_run A s out" "cleanText_run A s out'"
  shows "out' = out"
proof -
  from assms(1) obtain s1 where 1: "run_entries A replacements s s1" "run_passes A passes s1 out"
    by (auto elim: cleanText_run.cases)
  from assms(2) obtain s2 where 2: "run_entries A replacements s s2" "run_passes A passes s2 out'"
    by (auto elim: cleanText_run.cases)
  from 1(1) 2(1) have "s2 = s1" by (rule run_entries_determ)
  with 1(2) 2(2) show ?thesis by (auto dest: run_passes_determ)
qed

subsection \<open>On units below 256 the runs are the function \<open>cleanText\<close>\<close>

lemma holds_latin1: "holds latin1 cl = in_class cl"
  by (cases cl) (auto simp: latin1_def fun_eq_iff)

lemma longest_latin1: "longest latin1 a s = greedy a s"
  by (simp add: longest_def greedy_def holds_latin1)

lemma fill_latin1: "fill latin1 t gs = subst t gs"
  by (induction t gs rule: subst.induct) (simp_all add: latin1_def)

lemma matches_latin1: "matches latin1 ps s (match_seq ps s)"
  and tries_latin1: "tries latin1 a ps s k (match_rep a ps s k)"
proof (induction ps s and a ps s k rule: match_seq_match_rep.induct)
  case (1 s)
  show ?case by (simp add: end_of_pattern)
next
  case (2 a ps s)
  then show ?case by (simp add: quantifier longest_latin1)
next
  case (3 a ps s k)
  show ?case
  proof (cases "k < lo a")
    case True
    then show ?thesis by (subst match_rep.simps) (simp add: too_few)
  next
    case False
    then have lo: "lo a \<le> k" by simp
    note m = "3.IH"(1) [OF False]
    show ?thesis
    proof (cases "match_seq ps (drop k s)")
      case (Some p)
      obtain gs rest where p: "p = (gs, rest)" by (cases p)
      from m Some p have "matches latin1 ps (drop k s) (Some (gs, rest))" by simp
      from taken [OF lo this] Some p False show ?thesis
        by (subst match_rep.simps) simp
    next
      case None
      with m have n: "matches latin1 ps (drop k s) None" by simp
      show ?thesis
      proof (cases k)
        case 0
        with n lo have "tries latin1 a ps s 0 None" by (auto intro: exhausted)
        with 0 None False show ?thesis by (subst match_rep.simps) simp
      next
        case (Suc k')
        from "3.IH"(2) [OF False None Suc] have "tries latin1 a ps s k' (match_rep a ps s k')" .
        with n lo Suc have "tries latin1 a ps s (Suc k') (match_rep a ps s k')"
          by (auto intro: give_back)
        with Suc None False show ?thesis by (subst match_rep.simps) simp
      qed
    qed
  qed
qed

lemma scan_latin1: "scan latin1 ps t s (replace_g ps t s)"
proof (induction ps t s rule: replace_g.induct)
  case (1 ps t s)
  note m = matches_latin1 [of ps s]
  show ?case
  proof (cases "match_seq ps s")
    case None
    show ?thesis
    proof (cases s)
      case Nil
      with m None show ?thesis by (subst replace_g.simps) (simp add: at_end)
    next
      case (Cons c cs)
      from "1.IH"(1) [OF None Cons] m None Cons show ?thesis
        by (subst replace_g.simps) (simp add: copy)
    qed
  next
    case (Some p)
    obtain gs rest where p: "p = (gs, rest)" by (cases p)
    show ?thesis
    proof (cases "length rest < length s")
      case True
      then obtain c cs where s: "s = c # cs" by (cases s) auto
      from "1.IH"(2) [OF Some p [symmetric] True] have "scan latin1 ps t rest (replace_g ps t rest)" .
      with m Some p True s have "scan latin1 ps t (c # cs) (fill latin1 t gs @ replace_g ps t rest)"
        by (auto intro: replace)
      with Some p True s show ?thesis by (subst replace_g.simps) (simp add: fill_latin1)
    next
      case False
      show ?thesis
      proof (cases s)
        case Nil
        with m Some p have "scan latin1 ps t [] (fill latin1 t gs)"
          by (auto intro: at_end_empty_match)
        with Some p False Nil show ?thesis by (subst replace_g.simps) (simp add: fill_latin1)
      next
        case (Cons c cs)
        from "1.IH"(3) [OF Some p [symmetric] False Cons]
        have "scan latin1 ps t cs (replace_g ps t cs)" .
        with m Some p False Cons
        have "scan latin1 ps t (c # cs) (fill latin1 t gs @ c # replace_g ps t cs)"
          by (auto intro: empty_match)
        with Some p False Cons show ?thesis by (subst replace_g.simps) (simp add: fill_latin1)
      qed
    qed
  qed
qed

lemma run_entries_latin1: "apply_entries es s = Inr out \<Longrightarrow> run_entries latin1 es s out"
proof (induction es arbitrary: s)
  case Nil
  then show ?case by (simp add: no_entry)
next
  case (Cons e es)
  obtain w c where e: "e = (w, c)" by (cases e)
  from Cons.prems e have pl: "plain_key w" "plain_value c"
    and r: "apply_entries es (replace_g (literal w) [T c] s) = Inr out"
    by (auto simp: apply_entry_def split: if_splits)
  from entry [OF pl scan_latin1 Cons.IH [OF r]] e show ?case by simp
qed

lemma run_passes_latin1: "run_passes latin1 passes s (fix_accounts (fix_dates (fix_spacing s)))"
  unfolding passes_def fix_accounts_def fix_dates_def fix_spacing_def
  by (rule pass [OF scan_latin1])+ (rule no_pass)

lemma cleanText_run_latin1: "cleanText_run latin1 s out = (cleanText s = Inr out)"
proof
  assume "cleanText s = Inr out"
  then obtain s1 where "apply_entries replacements s = Inr s1"
    "out = fix_accounts (fix_dates (fix_spacing s1))"
    by (auto simp: cleanText_def split: sum.splits)
  then show "cleanText_run latin1 s out"
    by (auto intro!: returns run_entries_latin1 run_passes_latin1)
next
  assume run: "cleanText_run latin1 s out"
  obtain s1 where s1: "apply_entries replacements s = Inr s1"
    using apply_entries_plain [OF replacements_plain] by blast
  then have "cleanText_run latin1 s (fix_accounts (fix_dates (fix_spacing s1)))"
    by (auto intro!: returns run_entries_latin1 run_passes_latin1)
  with run have "out = fix_accounts (fix_dates (fix_spacing s1))"
    by (auto dest: cleanText_run_determ)
  with s1 show "cleanText s = Inr out" by (simp add: cleanText_def)
qed

subsection \<open>Code units below 256 and the characters of the source\<close>

lemma of_char_less: "(of_char c :: nat) < 256"
proof -
  have "(of_char c :: nat) mod 256 < 256" by simp
  then show ?thesis by (simp only: of_char_mod_256)
qed

lemma digit_nat: "is_digit c = (48 \<le> (of_char c :: nat) \<and> (of_char c :: nat) \<le> 57)"
  by (cases c) (auto simp: is_digit_def)

lemma alpha_nat: "is_alpha c = ((65 \<le> (of_char c :: nat) \<and> (of_char c :: nat) \<le> 90) \<or>
    (97 \<le> (of_char c :: nat) \<and> (of_char c :: nat) \<le> 122))"
  by (cases c) (auto simp: is_alpha_def)

lemma space_nat: "is_space c = ((of_char c :: nat) \<in> {9, 10, 11, 12, 13, 32, 160})"
  by (cases c) (auto simp: is_space_def)

lemma unat_u16: "unat (unit_of utf16 c) = of_char c"
proof -
  have "(of_char c :: nat) < 65536" by (rule less_trans [OF of_char_less]) simp
  then show ?thesis by (simp add: utf16_def unat_of_nat)
qed

lemma inj_u16: "(unit_of utf16 c = unit_of utf16 d) = (c = d)"
proof
  assume "unit_of utf16 c = unit_of utf16 d"
  then have "unat (unit_of utf16 c) = unat (unit_of utf16 d)" by simp
  then have "(of_char c :: nat) = of_char d" by (simp only: unat_u16)
  then show "c = d" by simp
qed simp

lemma digit_u16: "digit utf16 (unit_of utf16 c) = is_digit c"
proof -
  have "digit utf16 u = (48 \<le> unat u \<and> unat u \<le> 57)" for u
    by (simp add: utf16_def word_le_nat_alt)
  then show ?thesis by (simp add: unat_u16 digit_nat)
qed

lemma letter_u16: "letter utf16 (unit_of utf16 c) = is_alpha c"
proof -
  have "letter utf16 u = ((65 \<le> unat u \<and> unat u \<le> 90) \<or> (97 \<le> unat u \<and> unat u \<le> 122))" for u
    by (simp add: utf16_def word_le_nat_alt)
  then show ?thesis by (simp add: unat_u16 alpha_nat)
qed

lemma white_u16: "white utf16 (unit_of utf16 c) = is_space c"
proof -
  have "white utf16 u =
      (unat u \<in> {9, 10, 11, 12, 13, 32, 160, 5760, 8232, 8233, 8239, 8287, 12288, 65279}
       \<or> (8192 \<le> unat u \<and> unat u \<le> 8202))" for u
    by (simp add: utf16_def word_le_nat_alt word_unat_eq_iff)
  from this [of "unit_of utf16 c"] have w: "white utf16 (unit_of utf16 c) =
      ((of_char c :: nat) \<in> {9, 10, 11, 12, 13, 32, 160, 5760, 8232, 8233, 8239, 8287, 12288, 65279}
       \<or> (8192 \<le> (of_char c :: nat) \<and> (of_char c :: nat) \<le> 8202))"
    unfolding unat_u16 .
  show ?thesis
    unfolding w space_nat insert_iff empty_iff using of_char_less [of c] by presburger
qed

lemma units_map: "units = map (unit_of utf16)"
  by (simp add: fun_eq_iff units_def)

lemma holds_u16: "holds utf16 cl (unit_of utf16 c) = holds latin1 cl c"
proof (cases cl)
  case (OneOf cs)
  have "(unit_of utf16 c \<in> unit_of utf16 ` set cs) = (c \<in> set cs)"
    by (auto simp: inj_u16)
  with OneOf show ?thesis by (simp add: latin1_def)
qed (simp_all add: digit_u16 letter_u16 white_u16 latin1_def)

lemma longest_u16: "longest utf16 a (units s) = longest latin1 a s"
proof -
  have "holds utf16 (cls a) \<circ> unit_of utf16 = holds latin1 (cls a)"
    by (simp add: fun_eq_iff holds_u16)
  then show ?thesis by (simp add: longest_def units_map takeWhile_map)
qed

lemma fill_u16: "fill utf16 t (map units gs) = units (fill latin1 t gs)"
proof (induction t)
  case Nil
  show ?case by (simp add: units_map)
next
  case (Cons p t)
  have l: "unit_of latin1 = (\<lambda>c. c)" by (simp add: latin1_def)
  show ?case
  proof (cases p)
    case (T w)
    with Cons show ?thesis by (simp add: units_map l)
  next
    case (G n)
    show ?thesis
    proof (cases "1 \<le> n \<and> n \<le> length gs")
      case True
      then have "n - 1 < length gs" by arith
      then have "map units gs ! (n - 1) = units (gs ! (n - 1))" by (rule nth_map)
      with True G Cons show ?thesis by (simp add: units_map)
    next
      case False
      with G Cons show ?thesis by (auto simp: units_map l)
    qed
  qed
qed

lemma matches_u16: "matches A ps s r \<Longrightarrow> A = latin1 \<Longrightarrow> matches utf16 ps (units s) (lift_u16 r)"
  and tries_u16: "tries A a qs s0 k r0 \<Longrightarrow> A = latin1 \<Longrightarrow>
                    tries utf16 a qs (units s0) k (lift_u16 r0)"
proof (induction rule: matches_tries.inducts)
  case (end_of_pattern A s)
  show ?case by (simp add: matches_tries.end_of_pattern)
next
  case (quantifier A a ps s r)
  then show ?case by (simp add: matches_tries.quantifier longest_u16)
next
  case (too_few k a A ps s)
  then show ?case by (simp add: matches_tries.too_few)
next
  case (taken a k A ps s gs rest)
  then have "matches utf16 ps (drop k (units s)) (Some (map units gs, units rest))"
    by (simp add: units_map drop_map)
  from matches_tries.taken [OF taken.hyps(1) this]
  show ?case by (cases "grp a") (simp_all add: units_map take_map)
next
  case (exhausted a A ps s)
  then show ?case by (simp add: matches_tries.exhausted)
next
  case (give_back a k A ps s r)
  then have "matches utf16 ps (drop (Suc k) (units s)) None"
    by (simp add: units_map drop_map)
  from matches_tries.give_back [OF give_back.hyps(1) this] give_back show ?case by simp
qed

lemma units_simps:
  "units [] = []"
  "units (c # cs) = unit_of utf16 c # units cs"
  "units (xs @ ys) = units xs @ units ys"
  "length (units xs) = length xs"
  by (simp_all add: units_def)

lemma scan_u16: "scan A ps t s out \<Longrightarrow> A = latin1 \<Longrightarrow> scan utf16 ps t (units s) (units out)"
proof (induction rule: scan.induct)
  case (at_end A ps t)
  then have "matches utf16 ps (units []) (lift_u16 None)" by (blast intro: matches_u16)
  then show ?case by (simp add: units_simps scan.at_end)
next
  case (at_end_empty_match A ps gs rest t)
  then have "matches utf16 ps (units []) (lift_u16 (Some (gs, rest)))"
    by (blast intro: matches_u16)
  then have "scan utf16 ps t [] (fill utf16 t (map units gs))"
    by (simp add: units_simps scan.at_end_empty_match)
  with at_end_empty_match.prems show ?case by (simp add: fill_u16 units_simps)
next
  case (copy A ps c cs t out)
  then have "matches utf16 ps (units (c # cs)) (lift_u16 None)" by (blast intro: matches_u16)
  with copy show ?case by (simp add: units_simps scan.copy)
next
  case (replace A ps c cs gs rest t out)
  then have "matches utf16 ps (units (c # cs)) (lift_u16 (Some (gs, rest)))"
    by (blast intro: matches_u16)
  then have m: "matches utf16 ps (unit_of utf16 c # units cs) (Some (map units gs, units rest))"
    by (simp add: units_simps)
  from replace.hyps(2) have l: "length (units rest) < length (unit_of utf16 c # units cs)"
    by (simp add: units_simps)
  from replace have "scan utf16 ps t (units rest) (units out)" by simp
  from scan.replace [OF m l this] replace.prems show ?case
    by (simp add: fill_u16 units_simps)
next
  case (empty_match A ps c cs gs rest t out)
  then have "matches utf16 ps (units (c # cs)) (lift_u16 (Some (gs, rest)))"
    by (blast intro: matches_u16)
  then have m: "matches utf16 ps (unit_of utf16 c # units cs) (Some (map units gs, units rest))"
    by (simp add: units_simps)
  from empty_match.hyps(2) have l: "\<not> length (units rest) < length (unit_of utf16 c # units cs)"
    by (simp add: units_simps)
  from empty_match have "scan utf16 ps t (units cs) (units out)" by simp
  from scan.empty_match [OF m l this] empty_match.prems show ?case
    by (simp add: fill_u16 units_simps)
qed

lemma run_entries_u16:
  "run_entries A es s out \<Longrightarrow> A = latin1 \<Longrightarrow> run_entries utf16 es (units s) (units out)"
proof (induction rule: run_entries.induct)
  case (no_entry A s)
  show ?case by (rule run_entries.no_entry)
next
  case (entry wrong correct A s s' es out)
  then show ?case by (auto intro: run_entries.entry scan_u16)
qed

lemma run_passes_u16:
  "run_passes A qs s out \<Longrightarrow> A = latin1 \<Longrightarrow> run_passes utf16 qs (units s) (units out)"
proof (induction rule: run_passes.induct)
  case (no_pass A s)
  show ?case by (rule run_passes.no_pass)
next
  case (pass A ps t s s' qs out)
  then show ?case by (auto intro: run_passes.pass scan_u16)
qed

text \<open>
  What \<open>cleanText\<close> computes on a text of units below 256 is what the run over code units
  returns on the same text.
\<close>

lemma cleanText_run_units:
  assumes "cleanText s = Inr out"
  shows "cleanText_run utf16 (units s) (units out)"
proof -
  from assms have "cleanText_run latin1 s out" by (simp add: cleanText_run_latin1)
  then obtain s1 where "run_entries latin1 replacements s s1" "run_passes latin1 passes s1 out"
    by (auto elim: cleanText_run.cases)
  then have "run_entries utf16 replacements (units s) (units s1)"
    "run_passes utf16 passes (units s1) (units out)"
    by (auto intro: run_entries_u16 run_passes_u16)
  then show ?thesis by (rule returns)
qed

subsection \<open>A run on a text with a unit above 255\<close>

lemma tries_needs:
  assumes rest: "\<And>j. matches A ps (drop j s) None"
  shows "tries A b ps s k None"
proof (induction k)
  case 0
  show ?case
  proof (cases "0 < lo b")
    case True
    then show ?thesis by (rule too_few)
  next
    case False
    with rest [of 0] show ?thesis by (simp add: exhausted)
  qed
next
  case (Suc k)
  show ?case
  proof (cases "Suc k < lo b")
    case True
    then show ?thesis by (rule too_few)
  next
    case False
    then have "lo b \<le> Suc k" by simp
    from give_back [OF this rest Suc] show ?thesis .
  qed
qed

lemma matches_needs:
  assumes "a \<in> set ps" "1 \<le> lo a" "\<forall>u \<in> set s. \<not> holds A (cls a) u"
  shows "matches A ps s None"
  using assms
proof (induction ps arbitrary: s)
  case Nil
  then show ?case by simp
next
  case (Cons b ps)
  show ?case
  proof (cases "a = b")
    case True
    from Cons.prems(3) have "takeWhile (holds A (cls a)) s = []"
      by (cases s) simp_all
    then have "longest A a s = 0" by (simp add: longest_def split: option.splits)
    moreover from Cons.prems(2) have "tries A a ps s 0 None" by (simp add: too_few)
    ultimately show ?thesis using True by (simp add: quantifier)
  next
    case False
    with Cons.prems have a: "a \<in> set ps" by simp
    have "matches A ps (drop j s) None" for j
    proof (rule Cons.IH [OF a Cons.prems(2)])
      show "\<forall>u \<in> set (drop j s). \<not> holds A (cls a) u"
        using Cons.prems(3) by (meson in_set_dropD)
    qed
    then have "tries A b ps s (longest A b s) None" by (rule tries_needs)
    then show ?thesis by (rule quantifier)
  qed
qed

lemma scan_unchanged:
  assumes "a \<in> set ps" "1 \<le> lo a" "\<forall>u \<in> set s. \<not> holds A (cls a) u"
  shows "scan A ps t s s"
  using assms(3)
proof (induction s)
  case Nil
  have "matches A ps [] None" by (rule matches_needs [OF assms(1,2)]) simp
  then show ?case by (rule at_end)
next
  case (Cons c cs)
  from matches_needs [OF assms(1,2) Cons.prems] have "matches A ps (c # cs) None" .
  moreover from Cons have "scan A ps t cs cs" by simp
  ultimately show ?case by (rule copy)
qed

lemma run_entries_unchanged:
  assumes "list_all (\<lambda>e. plain_key (fst e) \<and> plain_value (snd e) \<and> list_ex is_alpha (fst e)) es"
    and "\<forall>u \<in> set s. \<not> letter utf16 u"
  shows "run_entries utf16 es s s"
  using assms(1)
proof (induction es)
  case Nil
  show ?case by (rule no_entry)
next
  case (Cons e es)
  obtain w c where e: "e = (w, c)" by (cases e)
  with Cons.prems obtain x where x: "x \<in> set w" "is_alpha x" by (auto simp: list_ex_iff)
  then have in_key: "Atom (OneOf [x]) 1 (Some 1) False \<in> set (literal w)"
    by (auto simp: literal_def)
  have "\<forall>u \<in> set s. \<not> holds utf16 (cls (Atom (OneOf [x]) 1 (Some 1) False)) u"
  proof
    fix u
    assume "u \<in> set s"
    with assms(2) have "\<not> letter utf16 u" by blast
    moreover from x(2) have "letter utf16 (unit_of utf16 x)" by (simp add: letter_u16)
    ultimately show "\<not> holds utf16 (cls (Atom (OneOf [x]) 1 (Some 1) False)) u" by auto
  qed
  from scan_unchanged [OF in_key _ this, of "[T c]"] have "scan utf16 (literal w) [T c] s s" by simp
  with Cons e show ?case by (auto intro: entry)
qed

text \<open>
  The text \<^verbatim>\<open>1\<close>, U+3000 (ideographic space), \<^verbatim>\<open>2\<close>: the first pass joins the two digits,
  and nothing else applies.
\<close>

lemma cleanText_run_ideographic_space:
  "cleanText_run utf16 [0x0031, 0x3000, 0x0032] [0x0031, 0x0032]"
proof -
  let ?s = "[0x0031, 0x3000, 0x0032] :: 16 word list"
  let ?o = "[0x0031, 0x0032] :: 16 word list"
  have d1: "digit utf16 0x0031" and d2: "digit utf16 0x0032" and nd: "\<not> digit utf16 0x3000"
    and w: "white utf16 0x3000" and nw1: "\<not> white utf16 0x0031" and nw2: "\<not> white utf16 0x0032"
    by (simp_all add: utf16_def)
  have "\<forall>u \<in> set ?s. \<not> letter utf16 u" by (simp add: utf16_def)
  from run_entries_unchanged [OF replacements_alpha this]
  have table: "run_entries utf16 replacements ?s ?s" .
  have "matches utf16 [] [] (Some ([], []))" by (rule end_of_pattern)
  then have "tries utf16 (one Digit) [] [0x0032] 1 (Some ([[0x0032]], []))"
    using taken [of "one Digit" 1 utf16 "[]" "[0x0032]" "[]" "[]"] by simp
  then have "matches utf16 [one Digit] [0x0032] (Some ([[0x0032]], []))"
    using quantifier [of utf16 "one Digit" "[]" "[0x0032]"] d2 by (simp add: longest_def)
  then have "tries utf16 spaces1 [one Digit] [0x3000, 0x0032] 1 (Some ([[0x0032]], []))"
    using taken [of spaces1 1 utf16 "[one Digit]" "[0x3000, 0x0032]" "[[0x0032]]" "[]"] by simp
  then have "matches utf16 [spaces1, one Digit] [0x3000, 0x0032] (Some ([[0x0032]], []))"
    using quantifier [of utf16 spaces1 "[one Digit]" "[0x3000, 0x0032]"] w nw2
    by (simp add: longest_def)
  then have "tries utf16 (one Digit) [spaces1, one Digit] ?s 1 (Some ([[0x0031], [0x0032]], []))"
    using taken [of "one Digit" 1 utf16 "[spaces1, one Digit]" ?s "[[0x0032]]" "[]"] by simp
  then have "matches utf16 [one Digit, spaces1, one Digit] ?s (Some ([[0x0031], [0x0032]], []))"
    using quantifier [of utf16 "one Digit" "[spaces1, one Digit]" ?s] d1 nd
    by (simp add: longest_def)
  moreover have "scan utf16 [one Digit, spaces1, one Digit] [G 1, G 2] [] []"
    by (rule at_end [OF matches_needs [of spaces1]]) simp_all
  ultimately have first: "scan utf16 [one Digit, spaces1, one Digit] [G 1, G 2] ?s ?o"
    using replace [of utf16 "[one Digit, spaces1, one Digit]" "0x0031" "[0x3000, 0x0032]"
        "[[0x0031], [0x0032]]" "[]" "[G 1, G 2]" "[]"]
    by simp
  have sp: "scan utf16 ps t ?o ?o" if "spaces1 \<in> set ps" for ps t
    by (rule scan_unchanged [OF that]) (simp_all add: nw1 nw2)
  have hy: "scan utf16 ps t ?o ?o" if "lit CHR ''-'' \<in> set ps" for ps t
    by (rule scan_unchanged [OF that]) (simp_all add: utf16_def)
  have "run_passes utf16 passes ?s ?o"
    unfolding passes_def
    by (rule pass [OF first]) ((rule pass [OF sp] pass [OF hy], simp)+, rule no_pass)
  with table show ?thesis by (rule returns)
qed

text \<open>
  C7. The normalizer is total and deterministic: on every text, any sequence of UTF-16
  code units, a call of \<open>cleanText\<close> returns a text, and it is the only text a call on
  that input can return. No run is stuck at a table entry or goes on for ever, and two
  runs on the same input end with the same output.
\<close>

theorem cleanText_run_once: "\<exists>!out. cleanText_run utf16 s out"
proof -
  obtain out where "cleanText_run utf16 s out" using cleanText_run_total by blast
  then show ?thesis by (auto dest: cleanText_run_determ)
qed

theorem cleanText_run_once_witness:
  "cleanText_run utf16 (units ''R0ya1 8ank'') (units ''Royal Bank'') \<and>
   (\<exists>!out. cleanText_run utf16 (units ''R0ya1 8ank'') out) \<and>
   cleanText_run utf16 [0x0031, 0x3000, 0x0032] [0x0031, 0x0032] \<and>
   (\<exists>!out. cleanText_run utf16 [0x0031, 0x3000, 0x0032] out)"
proof -
  have "cleanText ''R0ya1 8ank'' = Inr ''Royal Bank''" by code_simp
  then have "cleanText_run utf16 (units ''R0ya1 8ank'') (units ''Royal Bank'')"
    by (rule cleanText_run_units)
  with cleanText_run_ideographic_space
    cleanText_run_once [of "units ''R0ya1 8ank''"]
    cleanText_run_once [of "[0x0031, 0x3000, 0x0032]"]
  show ?thesis by blast
qed

text \<open>
  Digits that stand apart are joined pair by pair, from the left: where single digits
  are separated by white space, one run does not reach a fixed point.
\<close>

lemma cleanText_digits_apart:
  "cleanText ''1 2 3'' = Inr ''12 3'' \<and> cleanText ''12 3'' = Inr ''123''"
  by code_simp

text \<open>
  C8. On a digit-group text that is already correctly spaced (no letter and no white
  space in it) the normalizer is idempotent: the first run returns a text on which a
  second run changes nothing. On such a text the first run already returns its input.
\<close>

theorem cleanText_idempotent:
  assumes "spaced_digit_text x"
  shows "\<exists>y. cleanText x = Inr y \<and> cleanText y = Inr y"
proof -
  from assms have q: "list_all quiet x" by (simp add: spaced_digit_text_def)
  have "apply_entries replacements x = Inr x"
    by (rule apply_entries_quiet [OF replacements_alpha q])
  then have "cleanText x = Inr x"
    by (simp add: cleanText_def fix_spacing_quiet fix_dates_quiet fix_accounts_quiet q)
  then show ?thesis by simp
qed

theorem cleanText_idempotent_witness:
  "spaced_digit_text ''1234-567-890'' \<and>
   (\<exists>y. cleanText ''1234-567-890'' = Inr y \<and> cleanText y = Inr y)"
proof -
  have h: "spaced_digit_text ''1234-567-890''" by code_simp
  show ?thesis using h cleanText_idempotent [OF h] by simp
qed

section \<open>Properties of the validator\<close>

lemma invalid_amount_iff: "invalid_amount v = (\<not> (\<exists>n. v = JNum n \<and> n \<noteq> NaN))"
  by (cases v) (auto simp: invalid_amount_def)

lemma filter_tx_keep: "fst (filter_tx rt tx) = (\<not> invalid_amount (c_amount tx))"
  by (simp add: filter_tx_def Let_def)

lemma filter_tx_dropped: "invalid_amount (c_amount tx) \<Longrightarrow> snd (filter_tx rt tx) = tx"
  by (simp add: filter_tx_def)

lemma filter_txs_kept:
  "fst (filter_txs rt txs) =
     map (\<lambda>tx. snd (filter_tx rt tx)) (filter (\<lambda>tx. \<not> invalid_amount (c_amount tx)) txs)"
proof (induction txs)
  case Nil
  show ?case by simp
next
  case (Cons tx txs)
  obtain keep tx' where f: "filter_tx rt tx = (keep, tx')" by (cases "filter_tx rt tx")
  with filter_tx_keep [of rt tx] have k: "keep = (\<not> invalid_amount (c_amount tx))" by simp
  obtain kept after where r: "filter_txs rt txs = (kept, after)" by (cases "filter_txs rt txs")
  with Cons f k show ?case by simp
qed

lemma filter_txs_after: "snd (filter_txs rt txs) = map (\<lambda>tx. snd (filter_tx rt tx)) txs"
proof (induction txs)
  case Nil
  show ?case by simp
next
  case (Cons tx txs)
  obtain keep tx' where f: "filter_tx rt tx = (keep, tx')" by (cases "filter_tx rt tx")
  obtain kept after where r: "filter_txs rt txs = (kept, after)" by (cases "filter_txs rt txs")
  with Cons f show ?case by simp
qed

lemma unparseable_cases:
  "unparseable rt v = (case new_Date rt v of Normal d \<Rightarrow> d = Invalid_Date | Throw \<Rightarrow> True)"
  by (simp add: unparseable_def date_of_def split: completion.splits)

lemma filter_tx_amount: "c_amount (snd (filter_tx rt tx)) = c_amount tx"
  by (simp add: filter_tx_def Let_def split: completion.splits)

lemma filter_tx_category: "c_category (snd (filter_tx rt tx)) = c_category tx"
  by (simp add: filter_tx_def Let_def split: completion.splits)

lemma filter_tx_type:
  "\<not> invalid_amount (c_amount tx) \<Longrightarrow>
   c_type (snd (filter_tx rt tx)) =
     (if c_type tx = JStr ''INCOME'' \<or> c_type tx = JStr ''EXPENSE'' then c_type tx
      else JStr ''EXPENSE'')"
  by (simp add: filter_tx_def Let_def split: completion.splits)

lemma filter_tx_date:
  "\<not> invalid_amount (c_amount tx) \<Longrightarrow>
   c_date (snd (filter_tx rt tx)) =
     (if unparseable rt (c_date tx) then JStr (today rt) else c_date tx)"
  by (simp add: filter_tx_def Let_def unparseable_cases split: completion.splits)

lemma filter_tx_description:
  "\<not> invalid_amount (c_amount tx) \<Longrightarrow>
   c_description (snd (filter_tx rt tx)) =
     (case c_description tx of
        JStr s \<Rightarrow> if s = [] then JStr ''Unnamed transaction'' else JStr s
      | _ \<Rightarrow> JStr ''Unnamed transaction'')"
  by (cases "c_description tx")
     (simp_all add: filter_tx_def Let_def truthy_def is_string_def split: completion.splits)

lemma map_tx_date:
  "tx_date (map_tx rt dc du tx) =
     (if unparseable rt (c_date tx) then Date (clock rt) else date_of rt (c_date tx))"
  by (simp add: map_tx_def Let_def unparseable_cases date_of_def split: completion.splits)

lemma map_filter_tx:
  assumes "\<not> invalid_amount (c_amount tx)"
  shows "map_tx rt dc du (snd (filter_tx rt tx)) = spec_transaction rt dc du tx"
proof -
  let ?tx' = "snd (filter_tx rt tx)"
  from assms obtain n where n: "c_amount tx = JNum n" "n \<noteq> NaN"
    by (auto simp: invalid_amount_iff)
  have "tx_date (map_tx rt dc du ?tx') = tx_date (spec_transaction rt dc du tx)"
    unfolding map_tx_date filter_tx_date [OF assms]
    by (simp add: spec_transaction_def processing_date_def)
  moreover have "tx_description (map_tx rt dc du ?tx') = tx_description (spec_transaction rt dc du tx)"
    by (cases "c_description tx")
       (simp_all add: map_tx_def Let_def filter_tx_description [OF assms] spec_transaction_def
          js_String_def)
  moreover have "tx_amount (map_tx rt dc du ?tx') = tx_amount (spec_transaction rt dc du tx)"
    using n by (simp add: map_tx_def Let_def filter_tx_amount spec_transaction_def)
  moreover have "tx_type (map_tx rt dc du ?tx') = tx_type (spec_transaction rt dc du tx)"
    by (simp add: map_tx_def Let_def filter_tx_type [OF assms] spec_transaction_def)
  moreover have "tx_categoryId (map_tx rt dc du ?tx') = dc" "tx_userId (map_tx rt dc du ?tx') = du"
    by (simp_all add: map_tx_def Let_def)
  moreover have "tx_categoryId (spec_transaction rt dc du tx) = dc"
    "tx_userId (spec_transaction rt dc du tx) = du"
    by (simp_all add: spec_transaction_def)
  ultimately show ?thesis by (intro transaction.equality) simp_all
qed

lemma accepted_eq:
  "accepted rt dc du txs =
     (if list_all (\<lambda>tx. invalid_amount (c_amount tx)) txs then [default_transaction rt dc du]
      else map (spec_transaction rt dc du) (filter (\<lambda>tx. \<not> invalid_amount (c_amount tx)) txs))"
proof -
  let ?ks = "filter (\<lambda>tx. \<not> invalid_amount (c_amount tx)) txs"
  obtain kept after where r: "filter_txs rt txs = (kept, after)" by (cases "filter_txs rt txs")
  with filter_txs_kept [of rt txs] have k: "kept = map (\<lambda>tx. snd (filter_tx rt tx)) ?ks" by simp
  have m: "map (map_tx rt dc du) kept = map (spec_transaction rt dc du) ?ks"
    unfolding k by (simp add: map_filter_tx)
  have e: "(?ks = []) = list_all (\<lambda>tx. invalid_amount (c_amount tx)) txs"
    by (simp add: filter_empty_conv list_all_iff)
  have ke: "(kept = []) = (?ks = [])" unfolding k by simp
  show ?thesis
    by (simp add: accepted_def validTransactions_def r m Let_def ke e)
qed


lemma dropped_eq: "dropped rt txs = filter (\<lambda>tx. invalid_amount (c_amount tx)) txs"
  by (simp add: dropped_def filter_tx_keep)

lemma spec_transaction_fields:
  "tx_date (spec_transaction rt dc du tx) \<noteq> Invalid_Date"
  "tx_type (spec_transaction rt dc du tx) = ''INCOME'' \<or>
   tx_type (spec_transaction rt dc du tx) = ''EXPENSE''"
  "tx_description (spec_transaction rt dc du tx) \<noteq> []"
  "length (tx_description (spec_transaction rt dc du tx)) \<le> 255"
  "tx_categoryId (spec_transaction rt dc du tx) = dc"
  "tx_userId (spec_transaction rt dc du tx) = du"
proof -
  show "tx_date (spec_transaction rt dc du tx) \<noteq> Invalid_Date"
    by (simp add: spec_transaction_def processing_date_def unparseable_def)
  show "tx_type (spec_transaction rt dc du tx) = ''INCOME'' \<or>
        tx_type (spec_transaction rt dc du tx) = ''EXPENSE''"
    by (simp add: spec_transaction_def)
  show "tx_description (spec_transaction rt dc du tx) \<noteq> []"
    by (cases "c_description tx") (simp_all add: spec_transaction_def)
  show "length (tx_description (spec_transaction rt dc du tx)) \<le> 255"
    by (simp add: spec_transaction_def)
  show "tx_categoryId (spec_transaction rt dc du tx) = dc"
    "tx_userId (spec_transaction rt dc du tx) = du"
    by (simp_all add: spec_transaction_def)
qed

lemma spec_transaction_amount:
  "\<not> invalid_amount (c_amount tx) \<Longrightarrow> tx_amount (spec_transaction rt dc du tx) \<noteq> NaN"
  by (auto simp: invalid_amount_iff spec_transaction_def)

lemma accepted_cases:
  assumes "t \<in> set (accepted rt dc du txs)"
  obtains "t = default_transaction rt dc du"
  | tx where "tx \<in> set txs" "\<not> invalid_amount (c_amount tx)" "t = spec_transaction rt dc du tx"
  using assms by (auto simp: accepted_eq split: if_splits)

text \<open>
  C2 (as amended). The filter callback keeps a candidate exactly when its amount has the
  type number and is not \<^verbatim>\<open>NaN\<close>. Nothing is coerced before that decision: a candidate
  whose amount is a string, numeric-looking or not, is dropped. For a batch, the dropped
  candidates are those without such an amount, and the kept ones are the others, in
  their order, as the callback leaves them.
\<close>

theorem amount_decides_drop:
  "fst (filter_tx rt tx) = (\<exists>n. c_amount tx = JNum n \<and> n \<noteq> NaN) \<and>
   (c_amount tx = JStr s \<longrightarrow> \<not> fst (filter_tx rt tx)) \<and>
   dropped rt txs = filter (\<lambda>tx. \<not> (\<exists>n. c_amount tx = JNum n \<and> n \<noteq> NaN)) txs \<and>
   fst (filter_txs rt txs) =
     map (\<lambda>tx. snd (filter_tx rt tx)) (filter (\<lambda>tx. \<exists>n. c_amount tx = JNum n \<and> n \<noteq> NaN) txs)"
proof -
  have "fst (filter_txs rt txs) =
     map (\<lambda>tx. snd (filter_tx rt tx)) (filter (\<lambda>tx. \<exists>n. c_amount tx = JNum n \<and> n \<noteq> NaN) txs)"
    using filter_txs_kept [of rt txs] by (simp add: invalid_amount_iff)
  moreover have "dropped rt txs = filter (\<lambda>tx. \<not> (\<exists>n. c_amount tx = JNum n \<and> n \<noteq> NaN)) txs"
    using dropped_eq [of rt txs] by (simp add: invalid_amount_iff)
  moreover have "fst (filter_tx rt tx) = (\<exists>n. c_amount tx = JNum n \<and> n \<noteq> NaN)"
    by (simp add: filter_tx_keep invalid_amount_iff)
  ultimately show ?thesis by simp
qed

theorem amount_decides_drop_witness:
  "c_amount string_amount_candidate = JStr ''42.5'' \<and>
   \<not> fst (filter_tx epoch_runtime string_amount_candidate) \<and>
   fst (filter_tx epoch_runtime scenario_candidate) \<and>
   dropped epoch_runtime [string_amount_candidate, scenario_candidate] = [string_amount_candidate]"
proof -
  have h: "c_amount string_amount_candidate = JStr ''42.5''"
    by (simp add: string_amount_candidate_def)
  have a: "c_amount scenario_candidate = JNum (Finite 42.5)"
    by (simp add: scenario_candidate_def)
  show ?thesis
    using h a amount_decides_drop [of epoch_runtime string_amount_candidate "''42.5''"
        "[string_amount_candidate, scenario_candidate]"]
      amount_decides_drop [of epoch_runtime scenario_candidate "[]" "[]"]
    by simp
qed

text \<open>
  C2 as stated fails: the candidate whose amount is the string \<^verbatim>\<open>"42.5"\<close>, which
  \<^verbatim>\<open>parseFloat\<close> would read as 42.5, is dropped, and the accepted list holds the
  placeholder of amount 100 only.
\<close>

theorem string_amount_is_dropped:
  "parseFloat epoch_runtime (c_amount string_amount_candidate) = Finite 42.5 \<and>
   dropped epoch_runtime [string_amount_candidate] = [string_amount_candidate] \<and>
   map tx_amount (accepted epoch_runtime ''cat'' ''usr'' [string_amount_candidate]) = [Finite 100]"
  by (simp add: dropped_eq accepted_eq string_amount_candidate_def scenario_candidate_def
        invalid_amount_def epoch_runtime_def default_transaction_def)

text \<open>
  C3 (as amended). Every transaction of the accepted list, the placeholder included, has
  a valid date, a type that is \<^verbatim>\<open>INCOME\<close> or \<^verbatim>\<open>EXPENSE\<close>, an amount that is not \<^verbatim>\<open>NaN\<close>,
  and a non-empty description of at most 255 units. The sign and the finiteness of the
  amount are not checked.
\<close>

theorem accepted_well_formed:
  "\<forall>t \<in> set (accepted rt dc du txs).
     tx_date t \<noteq> Invalid_Date \<and>
     (tx_type t = ''INCOME'' \<or> tx_type t = ''EXPENSE'') \<and>
     tx_amount t \<noteq> NaN \<and>
     tx_description t \<noteq> [] \<and> length (tx_description t) \<le> 255"
proof
  fix t
  assume "t \<in> set (accepted rt dc du txs)"
  then show "tx_date t \<noteq> Invalid_Date \<and>
     (tx_type t = ''INCOME'' \<or> tx_type t = ''EXPENSE'') \<and>
     tx_amount t \<noteq> NaN \<and>
     tx_description t \<noteq> [] \<and> length (tx_description t) \<le> 255"
  proof (cases rule: accepted_cases)
    case 1
    then show ?thesis by (simp add: default_transaction_def)
  next
    case (2 tx)
    then show ?thesis
      using spec_transaction_fields [of rt dc du tx] spec_transaction_amount [of tx rt dc du]
      by simp
  qed
qed

theorem accepted_well_formed_witness:
  "accepted epoch_runtime ''cat'' ''usr'' [refund_candidate] =
     [\<lparr>tx_date = Date 0, tx_description = ''refund'', tx_amount = Finite (- 5),
       tx_type = ''INCOME'', tx_categoryId = ''cat'', tx_userId = ''usr''\<rparr>] \<and>
   Date 0 \<noteq> Invalid_Date \<and> Finite (- 5) \<noteq> NaN \<and> length ''refund'' \<le> 255"
proof -
  have a: "accepted epoch_runtime ''cat'' ''usr'' [refund_candidate] =
     [\<lparr>tx_date = Date 0, tx_description = ''refund'', tx_amount = Finite (- 5),
       tx_type = ''INCOME'', tx_categoryId = ''cat'', tx_userId = ''usr''\<rparr>]"
    by (simp add: accepted_eq refund_candidate_def invalid_amount_def spec_transaction_def
          unparseable_def date_of_def epoch_runtime_def)
  show ?thesis
    using a accepted_well_formed [of epoch_runtime "''cat''" "''usr''" "[refund_candidate]"]
    by simp
qed

text \<open>
  C3 as stated fails: a well-formed candidate of amount \<^verbatim>\<open>-5\<close> is accepted with that
  amount, which is not a finite non-negative number.
\<close>

theorem negative_amount_is_accepted:
  "map tx_amount (accepted epoch_runtime ''cat'' ''usr'' [refund_candidate]) = [Finite (- 5)] \<and>
   \<not> finite_nonneg (Finite (- 5))"
  by (simp add: accepted_eq refund_candidate_def invalid_amount_def spec_transaction_def
        finite_nonneg_def)


lemma dropped_all: "(dropped rt txs = txs) = list_all (\<lambda>tx. invalid_amount (c_amount tx)) txs"
  by (simp add: dropped_eq filter_id_conv list_all_iff)

text \<open>
  C4. The accepted list is never empty. When every candidate of the batch is dropped,
  and in particular when the batch is empty, it is exactly the one placeholder: the
  fixed description, amount 100, type \<^verbatim>\<open>EXPENSE\<close>, the current date, the default
  category and user. For the empty batch no candidate is dropped.
\<close>

theorem accepted_never_empty:
  "accepted rt dc du txs \<noteq> [] \<and>
   (dropped rt txs = txs \<longrightarrow>
      accepted rt dc du txs =
        [\<lparr>tx_date = Date (clock rt),
          tx_description = ''Default transaction (no valid transactions detected)'',
          tx_amount = Finite 100, tx_type = ''EXPENSE'',
          tx_categoryId = dc, tx_userId = du\<rparr>]) \<and>
   accepted rt dc du [] =
     [\<lparr>tx_date = Date (clock rt),
       tx_description = ''Default transaction (no valid transactions detected)'',
       tx_amount = Finite 100, tx_type = ''EXPENSE'',
       tx_categoryId = dc, tx_userId = du\<rparr>] \<and>
   length (dropped rt []) = 0"
proof -
  have "accepted rt dc du txs \<noteq> []"
    by (simp add: accepted_eq filter_empty_conv list_all_iff)
  moreover have "dropped rt txs = txs \<longrightarrow>
      accepted rt dc du txs = [default_transaction rt dc du]"
    by (simp add: dropped_all accepted_eq)
  moreover have "accepted rt dc du [] = [default_transaction rt dc du]"
    by (simp add: accepted_eq)
  moreover have "length (dropped rt []) = 0"
    by (simp add: dropped_def)
  ultimately show ?thesis by (simp add: default_transaction_def)
qed

theorem accepted_never_empty_witness:
  "dropped epoch_runtime [string_amount_candidate] = [string_amount_candidate] \<and>
   accepted epoch_runtime ''cat'' ''usr'' [string_amount_candidate] =
     [\<lparr>tx_date = Date 0,
       tx_description = ''Default transaction (no valid transactions detected)'',
       tx_amount = Finite 100, tx_type = ''EXPENSE'',
       tx_categoryId = ''cat'', tx_userId = ''usr''\<rparr>]"
proof -
  have h: "dropped epoch_runtime [string_amount_candidate] = [string_amount_candidate]"
    by (simp add: dropped_eq string_amount_candidate_def invalid_amount_def)
  have c: "clock epoch_runtime = 0" by (simp add: epoch_runtime_def)
  show ?thesis
    using h c accepted_never_empty [of epoch_runtime "''cat''" "''usr''" "[string_amount_candidate]"]
    by simp
qed



lemma filter_tx_after:
  "snd (filter_tx rt tx) =
     (if \<exists>n. c_amount tx = JNum n \<and> n \<noteq> NaN
      then tx\<lparr>c_type := (if c_type tx = JStr ''INCOME'' \<or> c_type tx = JStr ''EXPENSE''
                          then c_type tx else JStr ''EXPENSE''),
              c_date := (if unparseable rt (c_date tx) then JStr (today rt) else c_date tx),
              c_description := (case c_description tx of
                                  JStr s \<Rightarrow> if s = [] then JStr ''Unnamed transaction'' else JStr s
                                | _ \<Rightarrow> JStr ''Unnamed transaction'')\<rparr>
      else tx)"
proof (cases "invalid_amount (c_amount tx)")
  case True
  then have "\<not> (\<exists>n. c_amount tx = JNum n \<and> n \<noteq> NaN)" by (simp add: invalid_amount_iff)
  with filter_tx_dropped [OF True, of rt] show ?thesis by (simp only: if_False)
next
  case False
  then have n: "\<exists>n. c_amount tx = JNum n \<and> n \<noteq> NaN" by (simp add: invalid_amount_iff)
  have "c_date (snd (filter_tx rt tx)) =
          (if unparseable rt (c_date tx) then JStr (today rt) else c_date tx)"
    by (rule filter_tx_date [OF False])
  moreover note filter_tx_type [OF False, of rt] filter_tx_description [OF False, of rt]
    filter_tx_amount [of rt tx] filter_tx_category [of rt tx]
  ultimately have "snd (filter_tx rt tx) =
      tx\<lparr>c_type := (if c_type tx = JStr ''INCOME'' \<or> c_type tx = JStr ''EXPENSE''
                          then c_type tx else JStr ''EXPENSE''),
              c_date := (if unparseable rt (c_date tx) then JStr (today rt) else c_date tx),
              c_description := (case c_description tx of
                                  JStr s \<Rightarrow> if s = [] then JStr ''Unnamed transaction'' else JStr s
                                | _ \<Rightarrow> JStr ''Unnamed transaction'')\<rparr>"
    by (intro candidate.equality) simp_all
  with n show ?thesis by (simp only: if_True)
qed

text \<open>
  C6 (as amended). Validation changes the candidate objects it keeps and nothing else:
  the array keeps its length and order, a dropped candidate is unchanged, and in a kept
  candidate a type other than \<^verbatim>\<open>INCOME\<close> and \<^verbatim>\<open>EXPENSE\<close> is overwritten with \<^verbatim>\<open>EXPENSE\<close>,
  an unparseable date with today's ISO date string, and a missing, non-string or empty
  description with \<^verbatim>\<open>Unnamed transaction\<close>; amount and category are never written.
\<close>

theorem candidates_after_validation:
  "snd (validTransactions rt dc du txs) =
     map (\<lambda>tx. if \<exists>n. c_amount tx = JNum n \<and> n \<noteq> NaN
               then tx\<lparr>c_type := (if c_type tx = JStr ''INCOME'' \<or> c_type tx = JStr ''EXPENSE''
                                   then c_type tx else JStr ''EXPENSE''),
                       c_date := (if unparseable rt (c_date tx) then JStr (today rt)
                                  else c_date tx),
                       c_description :=
                         (case c_description tx of
                            JStr s \<Rightarrow> if s = [] then JStr ''Unnamed transaction'' else JStr s
                          | _ \<Rightarrow> JStr ''Unnamed transaction'')\<rparr>
               else tx) txs"
proof -
  obtain kept after where r: "filter_txs rt txs = (kept, after)" by (cases "filter_txs rt txs")
  with filter_txs_after [of rt txs] have "after = map (\<lambda>tx. snd (filter_tx rt tx)) txs" by simp
  then have "snd (validTransactions rt dc du txs) = map (\<lambda>tx. snd (filter_tx rt tx)) txs"
    by (simp add: validTransactions_def r Let_def)
  then show ?thesis by (simp only: filter_tx_after)
qed

theorem candidates_after_validation_witness:
  "snd (validTransactions epoch_runtime ''cat'' ''usr'' [string_amount_candidate, refund_candidate])
     = [string_amount_candidate, refund_candidate]"
proof -
  have u: "\<not> unparseable epoch_runtime (JStr ''1970-01-01'')"
    by (simp add: unparseable_def date_of_def epoch_runtime_def)
  show ?thesis
    using u candidates_after_validation [of epoch_runtime "''cat''" "''usr''"
        "[string_amount_candidate, refund_candidate]"]
    by (simp add: string_amount_candidate_def scenario_candidate_def refund_candidate_def)
qed

text \<open>
  C6 as stated fails: after validating the scenario's candidate, the candidate object
  itself has another type, date and description.
\<close>

theorem scenario_candidate_overwritten:
  "snd (validTransactions epoch_runtime ''cat'' ''usr'' [scenario_candidate]) =
     [\<lparr>c_date = JStr ''1970-01-01'', c_description = JStr ''Unnamed transaction'',
       c_amount = JNum (Finite 42.5), c_type = JStr ''EXPENSE'', c_category = JUndefined\<rparr>] \<and>
   snd (validTransactions epoch_runtime ''cat'' ''usr'' [scenario_candidate]) \<noteq> [scenario_candidate]"
  by (simp add: validTransactions_def filter_tx_def invalid_amount_def scenario_candidate_def
        epoch_runtime_def today_def truthy_def is_string_def Let_def)

lemma spec_transaction_category:
  "spec_transaction rt dc du (tx\<lparr>c_category := v\<rparr>) = spec_transaction rt dc du tx"
  by (simp add: spec_transaction_def)

text \<open>
  C10. Every accepted transaction, the placeholder included, carries the default
  category id and the default user id, and the accepted list does not depend on the
  candidates' own category fields.
\<close>

theorem default_ids_assigned:
  "(\<forall>t \<in> set (accepted rt dc du txs). tx_categoryId t = dc \<and> tx_userId t = du) \<and>
   accepted rt dc du (map (\<lambda>tx. tx\<lparr>c_category := f tx\<rparr>) txs) = accepted rt dc du txs"
proof
  show "\<forall>t \<in> set (accepted rt dc du txs). tx_categoryId t = dc \<and> tx_userId t = du"
  proof
    fix t
    assume "t \<in> set (accepted rt dc du txs)"
    then show "tx_categoryId t = dc \<and> tx_userId t = du"
      by (cases rule: accepted_cases)
         (simp_all add: default_transaction_def spec_transaction_fields)
  qed
  show "accepted rt dc du (map (\<lambda>tx. tx\<lparr>c_category := f tx\<rparr>) txs) = accepted rt dc du txs"
    by (simp add: accepted_eq list_all_iff filter_map o_def spec_transaction_category)
qed

theorem default_ids_assigned_witness:
  "map tx_categoryId (accepted epoch_runtime ''cat'' ''usr'' [refund_candidate, scenario_candidate])
     = [''cat'', ''cat''] \<and>
   map tx_userId (accepted epoch_runtime ''cat'' ''usr'' [refund_candidate, scenario_candidate])
     = [''usr'', ''usr''] \<and>
   accepted epoch_runtime ''cat'' ''usr''
     [refund_candidate\<lparr>c_category := JNum (Finite 7)\<rparr>, scenario_candidate\<lparr>c_category := JNull\<rparr>]
     = accepted epoch_runtime ''cat'' ''usr'' [refund_candidate, scenario_candidate]"
proof -
  have l: "length (accepted epoch_runtime ''cat'' ''usr'' [refund_candidate, scenario_candidate]) = 2"
    by (simp add: accepted_eq refund_candidate_def scenario_candidate_def invalid_amount_def)
  then obtain a b where
    ab: "accepted epoch_runtime ''cat'' ''usr'' [refund_candidate, scenario_candidate] = [a, b]"
    by (auto simp: length_Suc_conv numeral_2_eq_2)
  show ?thesis
    using ab default_ids_assigned [of epoch_runtime "''cat''" "''usr''"
        "[refund_candidate, scenario_candidate]"
        "\<lambda>tx. if tx = refund_candidate then JNum (Finite 7) else JNull"]
    by (simp add: refund_candidate_def scenario_candidate_def)
qed

section \<open>Properties of the persistence fallback\<close>

lemma save_document_full_ok:
  assumes "create_with_transactions st d (accepted rt dc uid txs) = Inr (r, ts)"
  shows "save_document st rt d dc uid txs calls =
           (Inr \<lparr>columns = r, transactions = Some ts\<rparr>,
            calls @ [Create_with_transactions d (accepted rt dc uid txs)])"
  using assms by (simp add: save_document_def create_full_def)

lemma save_document_degraded:
  assumes "create_with_transactions st d (accepted rt dc uid txs) = Inl e"
    and "create_document_only st d = Inr r"
  shows "save_document st rt d dc uid txs calls =
           (Inr \<lparr>columns = r, transactions = None\<rparr>,
            calls @ [Create_with_transactions d (accepted rt dc uid txs), Create_document_only d])"
  using assms by (simp add: save_document_def create_full_def create_alone_def)

lemma save_document_failed:
  assumes "create_with_transactions st d (accepted rt dc uid txs) = Inl e"
    and "create_document_only st d = Inl e'"
  shows "save_document st rt d dc uid txs calls =
           (Inl ''Failed to save document and transactions to database'',
            calls @ [Create_with_transactions d (accepted rt dc uid txs), Create_document_only d])"
  using assms by (simp add: save_document_def create_full_def create_alone_def)

text \<open>
  C9. When the store refuses the document with its transactions, the handler asks once
  more, for the document alone, and asks nothing else. If that succeeds, the response
  is a success (status 200) with the stored document and an empty transaction list; if
  it fails too, the response is a failure (status 500) whose detail is the persistence
  error. The response is a failure exactly when both calls fail.
\<close>

theorem degraded_success:
  "(create_with_transactions st d (accepted rt dc uid txs) = Inl e \<longrightarrow>
      snd (handler_save st rt d summary dc uid txs) =
        [Create_with_transactions d (accepted rt dc uid txs), Create_document_only d] \<and>
      (\<forall>r. create_document_only st d = Inr r \<longrightarrow>
         fst (handler_save st rt d summary dc uid txs) =
           Response 200 (Result \<lparr>columns = r, transactions = None\<rparr> summary [])) \<and>
      (\<forall>e'. create_document_only st d = Inl e' \<longrightarrow>
         fst (handler_save st rt d summary dc uid txs) =
           Response 500 (Failure ''Failed to process document''
             ''Failed to save document and transactions to database''))) \<and>
   (status_code (fst (handler_save st rt d summary dc uid txs)) = 500) =
     ((\<exists>e. create_with_transactions st d (accepted rt dc uid txs) = Inl e) \<and>
      (\<exists>e'. create_document_only st d = Inl e'))"
proof (cases "create_with_transactions st d (accepted rt dc uid txs)")
  case (Inr p)
  obtain r ts where p: "p = (r, ts)" by (cases p)
  from Inr p show ?thesis
    by (simp add: handler_save_def save_document_full_ok respond_def status_code_def)
next
  case (Inl e0)
  show ?thesis
  proof (cases "create_document_only st d")
    case (Inr r)
    from Inl Inr show ?thesis
      by (simp add: handler_save_def save_document_degraded respond_def status_code_def)
  next
    case (Inl e1)
    from \<open>create_with_transactions st d (accepted rt dc uid txs) = Inl e0\<close> Inl show ?thesis
      by (simp add: handler_save_def save_document_failed respond_def status_code_def)
  qed
qed

theorem degraded_success_witness:
  "create_with_transactions refusing_store upload
      (accepted epoch_runtime ''cat'' ''usr'' [scenario_candidate])
     = Inl ''Foreign key constraint failed'' \<and>
   create_document_only refusing_store upload = Inr 1 \<and>
   handler_save refusing_store epoch_runtime upload () ''cat'' ''usr'' [scenario_candidate] =
     (Response 200 (Result \<lparr>columns = 1, transactions = None\<rparr> () []),
      [Create_with_transactions upload (accepted epoch_runtime ''cat'' ''usr'' [scenario_candidate]),
       Create_document_only upload])"
proof -
  have f: "create_with_transactions refusing_store upload
      (accepted epoch_runtime ''cat'' ''usr'' [scenario_candidate])
     = Inl ''Foreign key constraint failed''"
    by (simp add: refusing_store_def)
  have g: "create_document_only refusing_store upload = Inr 1"
    by (simp add: refusing_store_def)
  note t = degraded_success [of refusing_store upload epoch_runtime "''cat''" "''usr''"
      "[scenario_candidate]" "''Foreign key constraint failed''" "()"]
  note u = t [THEN conjunct1, THEN mp, OF f]
  have "snd (handler_save refusing_store epoch_runtime upload () ''cat'' ''usr'' [scenario_candidate])
      = [Create_with_transactions upload (accepted epoch_runtime ''cat'' ''usr'' [scenario_candidate]),
         Create_document_only upload]"
    using u [THEN conjunct1] .
  moreover have "fst (handler_save refusing_store epoch_runtime upload () ''cat'' ''usr''
      [scenario_candidate]) = Response 200 (Result \<lparr>columns = 1, transactions = None\<rparr> () [])"
    using u [THEN conjunct2, THEN conjunct1, THEN spec, THEN mp, OF g] .
  ultimately have "handler_save refusing_store epoch_runtime upload () ''cat'' ''usr''
      [scenario_candidate] =
     (Response 200 (Result \<lparr>columns = 1, transactions = None\<rparr> () []),
      [Create_with_transactions upload (accepted epoch_runtime ''cat'' ''usr'' [scenario_candidate]),
       Create_document_only upload])"
    by (simp add: prod_eq_iff)
  with f g show ?thesis by blast
qed

end
